theory Spec2Isabelle
  imports Complex_Main "HOL-Library.Sublist" "HOL-Library.Char_ord" "HOL-Library.List_Lexorder"
    "HOL-Library.Log_Nat"
begin

section \<open>Python strings and values\<close>

text \<open>
  A Python \<^verbatim>\<open>str\<close> is modelled as a HOL \<^typ>\<open>string\<close>; each \<^typ>\<open>char\<close> stands for
  one code point in the range U+0000 .. U+00FF.  The value of a dictionary slot that the
  scraper fills is either \<^verbatim>\<open>None\<close> or a \<^verbatim>\<open>str\<close>.
\<close>

datatype jval = JNone | JStr string

type_synonym pydict = "string \<rightharpoonup> jval"

text \<open>Truthiness of a value (\<^verbatim>\<open>if v:\<close>): \<^verbatim>\<open>None\<close> and the empty string are falsy.\<close>

fun truthy :: "jval \<Rightarrow> bool" where
  "truthy JNone = False"
| "truthy (JStr s) = (s \<noteq> [])"

text \<open>\<^verbatim>\<open>d.get(k)\<close> and \<^verbatim>\<open>d.get(k, default)\<close>.\<close>

definition dict_get :: "pydict \<Rightarrow> string \<Rightarrow> jval" where
  "dict_get d k = (case d k of None \<Rightarrow> JNone | Some v \<Rightarrow> v)"

definition dict_get_default :: "pydict \<Rightarrow> string \<Rightarrow> jval \<Rightarrow> jval" where
  "dict_get_default d k dflt = (case d k of None \<Rightarrow> dflt | Some v \<Rightarrow> v)"

text \<open>
  \<^verbatim>\<open>str.isspace\<close> on one character, which is also the class \<^verbatim>\<open>\s\<close> of the \<^verbatim>\<open>re\<close>
  module and the separator set of \<^verbatim>\<open>str.split()\<close>: the code points 9-13, 28-32, 133
  and 160.
\<close>

definition isspace :: "char \<Rightarrow> bool" where
  "isspace c \<longleftrightarrow>
     (let n = (of_char c :: nat)
      in (9 \<le> n \<and> n \<le> 13) \<or> (28 \<le> n \<and> n \<le> 32) \<or> n = 133 \<or> n = 160)"

text \<open>\<^verbatim>\<open>text.split()\<close>: the maximal runs of non-space characters, in order.\<close>

fun split_ws :: "string \<Rightarrow> string \<Rightarrow> string list" where
  "split_ws cur [] = (if cur = [] then [] else [cur])"
| "split_ws cur (c # cs) =
     (if isspace c then (if cur = [] then split_ws [] cs else cur # split_ws [] cs)
      else split_ws (cur @ [c]) cs)"

definition py_split :: "string \<Rightarrow> string list" where
  "py_split s = split_ws [] s"

text \<open>\<^verbatim>\<open>sep.join(parts)\<close>.\<close>

fun py_join :: "string \<Rightarrow> string list \<Rightarrow> string" where
  "py_join sep [] = []"
| "py_join sep [w] = w"
| "py_join sep (w # ws) = w @ sep @ py_join sep ws"

text \<open>\<^verbatim>\<open>s.strip()\<close>.\<close>

definition py_strip :: "string \<Rightarrow> string" where
  "py_strip s = rev (dropWhile isspace (rev (dropWhile isspace s)))"

section \<open>utils.py: clean_text\<close>

text \<open>
  \<^verbatim>\<open>
  def clean_text(text):
      if text is None:
          return ""
      return ' '.join(text.split()).strip()
  \<close>
\<close>

definition clean_text :: "string option \<Rightarrow> string" where
  "clean_text text =
     (case text of None \<Rightarrow> [] | Some t \<Rightarrow> py_strip (py_join '' '' (py_split t)))"

section \<open>The fragment of the \<^verbatim>\<open>re\<close> module that utils.py uses\<close>

text \<open>
  Patterns are built from single-character classes, literal strings, sequence, ordered
  alternation, the greedy repetitions \<^verbatim>\<open>*\<close> and \<^verbatim>\<open>+\<close> of a character class, the
  anchors \<^verbatim>\<open>^\<close> and \<^verbatim>\<open>$\<close>, and one capturing group.  The literals of the patterns
  below are ASCII, so under \<^verbatim>\<open>re.IGNORECASE\<close> a literal matches exactly its two ASCII
  cases (within U+0000 .. U+00FF).
\<close>

datatype cset =
    Lit char     \<comment> \<open>a literal character\<close>
  | Dot          \<comment> \<open>\<^verbatim>\<open>.\<close>: anything but a newline\<close>
  | WSpace       \<comment> \<open>\<^verbatim>\<open>\s\<close>\<close>
  | AlNum        \<comment> \<open>\<^verbatim>\<open>[a-zA-Z0-9]\<close>\<close>

datatype regex =
    Chr cset
  | Str string            \<comment> \<open>a run of literal characters\<close>
  | Seq regex regex
  | Alt regex regex       \<comment> \<open>\<^verbatim>\<open>a|b\<close>, the left branch tried first\<close>
  | Star cset             \<comment> \<open>greedy \<^verbatim>\<open>c*\<close>\<close>
  | Plus cset             \<comment> \<open>greedy \<^verbatim>\<open>c+\<close>\<close>
  | Bol                   \<comment> \<open>\<^verbatim>\<open>^\<close>\<close>
  | Eol                   \<comment> \<open>\<^verbatim>\<open>$\<close>\<close>
  | Group regex           \<comment> \<open>\<^verbatim>\<open>(...)\<close>, group 1\<close>

definition newline :: char where
  "newline = CHR 0x0A"

definition ascii_lower :: "char \<Rightarrow> char" where
  "ascii_lower c =
     (let n = (of_char c :: nat) in if 65 \<le> n \<and> n \<le> 90 then char_of (n + 32) else c)"

definition is_alnum :: "char \<Rightarrow> bool" where
  "is_alnum c \<longleftrightarrow>
     (let n = (of_char c :: nat)
      in (97 \<le> n \<and> n \<le> 122) \<or> (65 \<le> n \<and> n \<le> 90) \<or> (48 \<le> n \<and> n \<le> 57))"

fun cs_match :: "bool \<Rightarrow> cset \<Rightarrow> char \<Rightarrow> bool" where
  "cs_match ic (Lit c) x = (if ic then ascii_lower x = ascii_lower c else x = c)"
| "cs_match ic Dot x = (x \<noteq> newline)"
| "cs_match ic WSpace x = isspace x"
| "cs_match ic AlNum x = is_alnum x"

text \<open>
  A greedy repetition leaves, in the order in which backtracking tries them, the rest
  after the longest run first and the whole input last.
\<close>

fun star_rests :: "(char \<Rightarrow> bool) \<Rightarrow> string \<Rightarrow> string list" where
  "star_rests p [] = [[]]"
| "star_rests p (x # xs) = (if p x then star_rests p xs @ [x # xs] else [x # xs])"

text \<open>Does the literal run \<open>l\<close> start the input?  Then the rest after it.\<close>

fun str_rest :: "bool \<Rightarrow> string \<Rightarrow> string \<Rightarrow> string option" where
  "str_rest ic [] s = Some s"
| "str_rest ic (c # cs) [] = None"
| "str_rest ic (c # cs) (x # xs) = (if cs_match ic (Lit c) x then str_rest ic cs xs else None)"

text \<open>
  The matcher.  A state is the input not yet consumed and the text of group 1 (if the
  group has matched); \<open>n\<close> is the length of the whole subject, so that \<^verbatim>\<open>^\<close> holds
  where nothing has been consumed.  The result lists the states after every way of
  matching the pattern at this place, in the order in which a backtracking matcher
  finds them: the match that \<^verbatim>\<open>re\<close> reports is the first.  \<^verbatim>\<open>$\<close> holds at the end of
  the subject and just before a newline that ends it.
\<close>

type_synonym mstate = "string \<times> string option"

primrec rmatch :: "bool \<Rightarrow> nat \<Rightarrow> regex \<Rightarrow> mstate \<Rightarrow> mstate list" where
  "rmatch ic n (Chr cs) st =
     (case fst st of [] \<Rightarrow> [] | x # xs \<Rightarrow> if cs_match ic cs x then [(xs, snd st)] else [])"
| "rmatch ic n (Str l) st =
     (case str_rest ic l (fst st) of None \<Rightarrow> [] | Some r \<Rightarrow> [(r, snd st)])"
| "rmatch ic n (Seq a b) st = concat (map (rmatch ic n b) (rmatch ic n a st))"
| "rmatch ic n (Alt a b) st = rmatch ic n a st @ rmatch ic n b st"
| "rmatch ic n (Star cs) st = map (\<lambda>r. (r, snd st)) (star_rests (cs_match ic cs) (fst st))"
| "rmatch ic n (Plus cs) st =
     (case fst st of
        [] \<Rightarrow> []
      | x # xs \<Rightarrow>
          if cs_match ic cs x then map (\<lambda>r. (r, snd st)) (star_rests (cs_match ic cs) xs)
          else [])"
| "rmatch ic n Bol st = (if length (fst st) = n then [st] else [])"
| "rmatch ic n Eol st = (if fst st = [] \<or> fst st = [newline] then [st] else [])"
| "rmatch ic n (Group a) st =
     map (\<lambda>st'. (fst st', Some (take (length (fst st) - length (fst st')) (fst st))))
       (rmatch ic n a st)"

definition match_at :: "bool \<Rightarrow> nat \<Rightarrow> regex \<Rightarrow> string \<Rightarrow> mstate option" where
  "match_at ic n r s = (case rmatch ic n r (s, None) of [] \<Rightarrow> None | st # _ \<Rightarrow> Some st)"

text \<open>\<^verbatim>\<open>re.search\<close>: the first match at the leftmost place that has one.\<close>

fun search_from :: "bool \<Rightarrow> nat \<Rightarrow> regex \<Rightarrow> string \<Rightarrow> mstate option" where
  "search_from ic n r [] = match_at ic n r []"
| "search_from ic n r (x # xs) =
     (case match_at ic n r (x # xs) of
        Some st \<Rightarrow> Some st
      | None \<Rightarrow> search_from ic n r xs)"

definition re_search :: "bool \<Rightarrow> regex \<Rightarrow> string \<Rightarrow> mstate option" where
  "re_search ic r s = search_from ic (length s) r s"

text \<open>
  \<^verbatim>\<open>re.sub(pattern, repl, s)\<close> for a replacement text without group references: every
  leftmost match is replaced and the scan goes on after it; where nothing matches, one
  character is copied.  An empty match is replaced too, and the scan then copies one
  character.
\<close>

function sub_from :: "bool \<Rightarrow> nat \<Rightarrow> regex \<Rightarrow> string \<Rightarrow> string \<Rightarrow> string" where
  "sub_from ic n r repl s =
     (case match_at ic n r s of
        None \<Rightarrow> (case s of [] \<Rightarrow> [] | x # xs \<Rightarrow> x # sub_from ic n r repl xs)
      | Some st \<Rightarrow>
          if length (fst st) < length s then repl @ sub_from ic n r repl (fst st)
          else (case s of [] \<Rightarrow> repl | x # xs \<Rightarrow> repl @ x # sub_from ic n r repl xs))"
  by pat_completeness auto
termination
  by (relation "measure (\<lambda>(ic, n, r, repl, s). length s)") auto

definition re_sub :: "bool \<Rightarrow> regex \<Rightarrow> string \<Rightarrow> string \<Rightarrow> string" where
  "re_sub ic r repl s = sub_from ic (length s) r repl s"

section \<open>utils.py: parse_fighter_id_from_url\<close>

text \<open>
  \<^verbatim>\<open>
  def parse_fighter_id_from_url(fighter_url):
      if not fighter_url:
          return None
      match = re.search(r'fighter-details/([a-zA-Z0-9]+)$', fighter_url)
      return match.group(1) if match else None
  \<close>
\<close>

definition fighter_id_rx :: regex where
  "fighter_id_rx = Seq (Str ''fighter-details/'') (Seq (Group (Plus AlNum)) Eol)"

definition parse_fighter_id_from_url :: "string option \<Rightarrow> string option" where
  "parse_fighter_id_from_url fighter_url =
     (case fighter_url of
        None \<Rightarrow> None
      | Some u \<Rightarrow>
          if u = [] then None
          else (case re_search False fighter_id_rx u of
                  None \<Rightarrow> None
                | Some st \<Rightarrow> snd st))"

section \<open>utils.py: normalize_weight_class\<close>

text \<open>
  \<^verbatim>\<open>
  def normalize_weight_class(wc_string):
      if wc_string is None:
          return "Unknown"
      wc_string = clean_text(wc_string)
      wc_string = re.sub(r'\s+(Bout|Title Bout|Interim.*Title Bout|Catch Weight.*|The Ultimate Fighter.*Final|Tournament.*Final)$',
                         '', wc_string, flags=re.IGNORECASE)
      wc_string = re.sub(r'^UFC\s+', '', wc_string, flags=re.IGNORECASE)
      return clean_text(wc_string) if wc_string else "Unknown"
  \<close>
\<close>

definition bout_suffix_rx :: regex where
  "bout_suffix_rx =
     Seq (Plus WSpace)
       (Seq
          (Group
             (Alt (Str ''Bout'')
             (Alt (Str ''Title Bout'')
             (Alt (Seq (Str ''Interim'') (Seq (Star Dot) (Str ''Title Bout'')))
             (Alt (Seq (Str ''Catch Weight'') (Star Dot))
             (Alt (Seq (Str ''The Ultimate Fighter'') (Seq (Star Dot) (Str ''Final'')))
                  (Seq (Str ''Tournament'') (Seq (Star Dot) (Str ''Final'')))))))))
          Eol)"

definition ufc_prefix_rx :: regex where
  "ufc_prefix_rx = Seq Bol (Seq (Str ''UFC'') (Plus WSpace))"

definition normalize_weight_class :: "string option \<Rightarrow> string" where
  "normalize_weight_class wc_string =
     (case wc_string of
        None \<Rightarrow> ''Unknown''
      | Some s \<Rightarrow>
          (let s1 = clean_text (Some s);
               s2 = re_sub True bout_suffix_rx [] s1;
               s3 = re_sub True ufc_prefix_rx [] s2
           in if s3 \<noteq> [] then clean_text (Some s3) else ''Unknown''))"

section \<open>utils.py: parse_height_to_cm\<close>

text \<open>
  An exception that no handler of the function catches is a result of its own.
\<close>

datatype py_error = OverflowError

text \<open>\<^verbatim>\<open>s.replace(c, '')\<close> for a single character, and \<^verbatim>\<open>sub in s\<close>.\<close>

definition remove_char :: "char \<Rightarrow> string \<Rightarrow> string" where
  "remove_char c s = filter (\<lambda>x. x \<noteq> c) s"

fun contains :: "string \<Rightarrow> string \<Rightarrow> bool" where
  "contains sub [] = (sub = [])"
| "contains sub (x # xs) = (prefix sub (x # xs) \<or> contains sub xs)"

text \<open>\<^verbatim>\<open>s.split(sep)\<close> for a single character: one more part than separators.\<close>

fun split_on :: "string \<Rightarrow> char \<Rightarrow> string \<Rightarrow> string list" where
  "split_on cur sep [] = [cur]"
| "split_on cur sep (c # cs) =
     (if c = sep then cur # split_on [] sep cs else split_on (cur @ [c]) sep cs)"

text \<open>
  \<^verbatim>\<open>int(s)\<close>, \<open>None\<close> for \<^verbatim>\<open>ValueError\<close>: surrounding white space is dropped (the code
  points 9-13, 32, 133 and 160), then comes an optional sign and decimal digits, which
  single underscores may separate.  A text with more digits than the interpreter's limit
  (\<^verbatim>\<open>sys.int_info.default_max_str_digits\<close>, 4300, which the program leaves unchanged) is a
  \<^verbatim>\<open>ValueError\<close> as well; sign, underscores and surrounding white space do not count,
  leading zeros do.
\<close>

definition max_str_digits :: nat where
  "max_str_digits = 4300"

definition int_space :: "char \<Rightarrow> bool" where
  "int_space c \<longleftrightarrow>
     (let n = (of_char c :: nat) in (9 \<le> n \<and> n \<le> 13) \<or> n = 32 \<or> n = 133 \<or> n = 160)"

definition is_digit :: "char \<Rightarrow> bool" where
  "is_digit c \<longleftrightarrow> (let n = (of_char c :: nat) in 48 \<le> n \<and> n \<le> 57)"

definition digit_val :: "char \<Rightarrow> int" where
  "digit_val c = int (of_char c) - 48"

fun scan_digits :: "bool \<Rightarrow> int \<Rightarrow> string \<Rightarrow> int option" where
  "scan_digits prev acc [] = (if prev then Some acc else None)"
| "scan_digits prev acc (c # cs) =
     (if is_digit c then scan_digits True (acc * 10 + digit_val c) cs
      else if c = CHR ''_'' \<and> prev then scan_digits False acc cs
      else None)"

definition py_int :: "string \<Rightarrow> int option" where
  "py_int s =
     (case rev (dropWhile int_space (rev (dropWhile int_space s))) of
        [] \<Rightarrow> None
      | c # cs \<Rightarrow>
          if length (filter is_digit (c # cs)) > max_str_digits then None
          else if c = CHR ''-'' then map_option uminus (scan_digits False 0 cs)
          else if c = CHR ''+'' then scan_digits False 0 cs
          else scan_digits False 0 (c # cs))"

text \<open>
  Binary floating point (IEEE 754 double precision).  A finite double is a pair \<open>(m, e)\<close>
  that stands for \<open>m * 2 ^ e\<close>, with \<open>\<bar>m\<bar> \<le> 2 ^ 53\<close>.  \<open>rhe_div a b\<close> is \<open>a / b\<close> rounded
  to the nearest integer, a tie going to the even neighbour (\<open>b > 0\<close>).  \<open>to_double\<close> rounds
  an exact value to 53 significant bits; a magnitude of \<open>2 ^ 1024\<close> or more overflows.
  Values below the normal range do not arise here (every product is an integer times
  2.54) and are not rounded further.
\<close>

type_synonym double = "int \<times> int"

definition rhe_div :: "int \<Rightarrow> int \<Rightarrow> int" where
  "rhe_div a b =
     (let q = a div b; r = a mod b
      in if 2 * r < b then q
         else if 2 * r > b then q + 1
         else if even q then q else q + 1)"

definition to_double :: "int \<times> int \<Rightarrow> py_error + double" where
  "to_double v =
     (let m = fst v; e = snd v; l = bitlen \<bar>m\<bar>;
          d = (if l \<le> 53 then (m, e)
               else (sgn m * rhe_div \<bar>m\<bar> (2 ^ nat (l - 53)), e + (l - 53)))
      in if bitlen \<bar>fst d\<bar> + snd d > 1024 then Inl OverflowError else Inr d)"

text \<open>
  \<^verbatim>\<open>float(n)\<close> for an \<^verbatim>\<open>int\<close> (\<^verbatim>\<open>OverflowError\<close> when it is too large), the product of two
  doubles (an overflow gives infinity, on which \<^verbatim>\<open>round\<close> raises \<^verbatim>\<open>OverflowError\<close>), and
  \<^verbatim>\<open>round(x)\<close>, which rounds a tie to the even integer.
\<close>

definition float_of_int :: "int \<Rightarrow> py_error + double" where
  "float_of_int n = to_double (n, 0)"

definition float_mul :: "double \<Rightarrow> double \<Rightarrow> py_error + double" where
  "float_mul x y = to_double (fst x * fst y, snd x + snd y)"

definition py_round :: "double \<Rightarrow> int" where
  "py_round x =
     (if snd x \<ge> 0 then fst x * 2 ^ nat (snd x) else rhe_div (fst x) (2 ^ nat (- snd x)))"

text \<open>The literal \<^verbatim>\<open>2.54\<close>: the double \<^verbatim>\<open>0x1.451eb851eb852p+1\<close>.\<close>

definition d2_54 :: double where
  "d2_54 = (5719571526760530, -51)"

text \<open>\<^verbatim>\<open>round(total_inches * 2.54)\<close> for an \<^verbatim>\<open>int\<close> \<^verbatim>\<open>total_inches\<close>.\<close>

definition inches_to_cm :: "int \<Rightarrow> py_error + int" where
  "inches_to_cm total_inches =
     (case float_of_int total_inches of
        Inl err \<Rightarrow> Inl err
      | Inr x \<Rightarrow>
          (case float_mul x d2_54 of
             Inl err \<Rightarrow> Inl err
           | Inr y \<Rightarrow> Inr (py_round y)))"

text \<open>
  \<^verbatim>\<open>
  def parse_height_to_cm(height_str):
      if not height_str or '--' in height_str:
          return None
      feet, inches = 0, 0
      height_str = height_str.replace(' ', '')
      parts = height_str.replace('"', '').split("'")
      try:
          if len(parts) == 2:
              feet = int(parts[0])
              if parts[1]:
                  inches = int(parts[1])
          elif len(parts) == 1 and parts[0]:
              if "'" in height_str and '"' not in height_str :
                   feet = int(parts[0])
                   inches = 0
              elif '"' in height_str:
                  inches = int(parts[0])
              else:
                  return None
          else:
              return None
      except ValueError:
          return None
      total_inches = (feet * 12) + inches
      return round(total_inches * 2.54)
  \<close>
  \<open>feet_inches\<close> is the \<^verbatim>\<open>try\<close> block: the pair \<open>(feet, inches)\<close>, or \<open>None\<close> where the
  function returns \<^verbatim>\<open>None\<close> from it.
\<close>

definition feet_inches :: "string \<Rightarrow> string list \<Rightarrow> (int \<times> int) option" where
  "feet_inches height_str parts =
     (if length parts = 2 then
        (case py_int (parts ! 0) of
           None \<Rightarrow> None
         | Some feet \<Rightarrow>
             if parts ! 1 \<noteq> [] then
               (case py_int (parts ! 1) of None \<Rightarrow> None | Some inches \<Rightarrow> Some (feet, inches))
             else Some (feet, 0))
      else if length parts = 1 \<and> parts ! 0 \<noteq> [] then
        (if CHR 0x27 \<in> set height_str \<and> CHR 0x22 \<notin> set height_str then
           (case py_int (parts ! 0) of None \<Rightarrow> None | Some feet \<Rightarrow> Some (feet, 0))
         else if CHR 0x22 \<in> set height_str then
           (case py_int (parts ! 0) of None \<Rightarrow> None | Some inches \<Rightarrow> Some (0, inches))
         else None)
      else None)"

definition parse_height_to_cm :: "string option \<Rightarrow> py_error + int option" where
  "parse_height_to_cm height_str =
     (case height_str of
        None \<Rightarrow> Inr None
      | Some h \<Rightarrow>
          if h = [] \<or> contains ''--'' h then Inr None
          else
            (let h1 = remove_char CHR '' '' h;
                 parts = split_on [] (CHR 0x27) (remove_char (CHR 0x22) h1)
             in case feet_inches h1 parts of
                  None \<Rightarrow> Inr None
                | Some (feet, inches) \<Rightarrow>
                    (case inches_to_cm (feet * 12 + inches) of
                       Inl err \<Rightarrow> Inl err
                     | Inr cm \<Rightarrow> Inr (Some cm))))"

section \<open>scraper.py: scrape_event_fights\<close>

text \<open>
  The parsed page is represented by what the function asks of it.  A link
  (\<^verbatim>\<open><a>\<close>) carries its text and its \<^verbatim>\<open>href\<close> attribute; a table cell carries the
  results of the queries made on it; a row carries its \<^verbatim>\<open>data-link\<close> attribute and its
  direct \<^verbatim>\<open>td\<close> children.
\<close>

record anchor =
  a_text :: string            \<comment> \<open>\<^verbatim>\<open>tag.get_text()\<close>\<close>
  a_href :: "string option"   \<comment> \<open>\<^verbatim>\<open>tag.get('href')\<close>\<close>

record cell =
  td_anchors :: "anchor list"
    \<comment> \<open>\<^verbatim>\<open>td.select("a")\<close>\<close>
  td_status :: "string list option option"
    \<comment> \<open>\<^verbatim>\<open>td.select_one("p:nth-of-type(1) i.b-fight-details__person-status")\<close>:
        \<open>None\<close> when no tag is found, otherwise the tag's \<^verbatim>\<open>class\<close> attribute
        (\<open>None\<close> when the tag has none)\<close>
  td_table_text :: "string option"
    \<comment> \<open>text of \<^verbatim>\<open>td.select_one("p.b-fight-details__table-text")\<close>, when found\<close>
  td_text :: string
    \<comment> \<open>\<^verbatim>\<open>td.get_text()\<close>\<close>
  td_text_sep :: string
    \<comment> \<open>\<^verbatim>\<open>td.get_text(separator=" ", strip=True)\<close>\<close>

record row =
  data_link :: "string option"   \<comment> \<open>\<^verbatim>\<open>row.get('data-link')\<close>\<close>
  tds :: "cell list"             \<comment> \<open>\<^verbatim>\<open>row.find_all("td", recursive=False)\<close>\<close>

definition FIGHTER_STATS_BASE_URL :: string where
  "FIGHTER_STATS_BASE_URL = ''http://ufcstats.com''"

text \<open>
  The expression
  \<^verbatim>\<open>(config.FIGHTER_STATS_BASE_URL + href) if href and not href.startswith('http') else href\<close>,
  which the function writes out for both fighters and for the fight link.
\<close>

definition absolute_url :: "string option \<Rightarrow> jval" where
  "absolute_url href =
     (case href of
        None \<Rightarrow> JNone
      | Some h \<Rightarrow>
          if h \<noteq> [] \<and> \<not> prefix ''http'' h then JStr (FIGHTER_STATS_BASE_URL @ h)
          else JStr h)"

text \<open>
  Lines 93-105: the winner, from the status tag of fighter 1 and the two names.
  \<^verbatim>\<open>fighter1_status_tag.get('class', [])\<close> is the empty list when the attribute is absent.
\<close>

definition resolve_winner :: "string list option option \<Rightarrow> string \<Rightarrow> string \<Rightarrow> string" where
  "resolve_winner fighter1_status_tag fighter1_name fighter2_name =
     (case fighter1_status_tag of
        None \<Rightarrow> ''N/A''
      | Some cls \<Rightarrow>
          (let status_classes = (case cls of None \<Rightarrow> [] | Some l \<Rightarrow> l)
           in if ''b-fight-details__person-status_style_green'' \<in> set status_classes
                then fighter1_name
              else if ''b-fight-details__person-status_style_red'' \<in> set status_classes
                then fighter2_name
              else if ''b-fight-details__person-status_style_blue'' \<in> set status_classes
                then ''Draw''
              else if ''b-fight-details__person-status_style_yellow'' \<in> set status_classes
                then ''No Contest''
              else ''N/A''))"

text \<open>
  Lines 73-138: the body of the loop for one row.  \<open>None\<close> is a row that adds nothing
  (a falsy \<^verbatim>\<open>data-link\<close>, or the \<^verbatim>\<open>continue\<close> for fewer than 10 columns).
\<close>

definition fight_of_row :: "string \<Rightarrow> row \<Rightarrow> pydict option" where
  "fight_of_row event_date r =
     (case data_link r of
        None \<Rightarrow> None
      | Some fight_details_href \<Rightarrow>
          if fight_details_href = [] then None
          else
            (let cols = tds r in
             if length cols < 10 then None
             else
               (let fighter_a_tags = td_anchors (cols ! 1);
                    fighter1_tag = (if length fighter_a_tags > 0 then Some (fighter_a_tags ! 0) else None);
                    fighter2_tag = (if length fighter_a_tags > 1 then Some (fighter_a_tags ! 1) else None);
                    fighter1_name =
                      (case fighter1_tag of None \<Rightarrow> ''N/A'' | Some t \<Rightarrow> clean_text (Some (a_text t)));
                    fighter1_href = (case fighter1_tag of None \<Rightarrow> None | Some t \<Rightarrow> a_href t);
                    fighter1_url = absolute_url fighter1_href;
                    fighter2_name =
                      (case fighter2_tag of None \<Rightarrow> ''N/A'' | Some t \<Rightarrow> clean_text (Some (a_text t)));
                    fighter2_href = (case fighter2_tag of None \<Rightarrow> None | Some t \<Rightarrow> a_href t);
                    fighter2_url = absolute_url fighter2_href;
                    winner = resolve_winner (td_status (cols ! 0)) fighter1_name fighter2_name;
                    weight_class_str =
                      (case td_table_text (cols ! 6) of
                         None \<Rightarrow> ''Unknown''
                       | Some t \<Rightarrow> clean_text (Some t));
                    normalized_wc = normalize_weight_class (Some weight_class_str);
                    method_text = clean_text (Some (td_text_sep (cols ! 7)));
                    round_val = clean_text (Some (td_text (cols ! 8)));
                    time_val = clean_text (Some (td_text (cols ! 9)));
                    full_fight_details_url = absolute_url (Some fight_details_href)
                in Some (map_of
                     [(''fighter1_name'', JStr fighter1_name),
                      (''fighter1_url'', fighter1_url),
                      (''fighter2_name'', JStr fighter2_name),
                      (''fighter2_url'', fighter2_url),
                      (''winner'', JStr winner),
                      (''method'', JStr method_text),
                      (''round'', JStr round_val),
                      (''time'', JStr time_val),
                      (''weight_class'', JStr normalized_wc),
                      (''fight_details_url'', full_fight_details_url),
                      (''event_date'', JStr event_date)]))))"

text \<open>The loop over the rows: \<^verbatim>\<open>fights.append(...)\<close> in document order.\<close>

fun scrape_rows :: "string \<Rightarrow> row list \<Rightarrow> pydict list" where
  "scrape_rows event_date [] = []"
| "scrape_rows event_date (r # rs) =
     (case fight_of_row event_date r of
        None \<Rightarrow> scrape_rows event_date rs
      | Some fight \<Rightarrow> fight # scrape_rows event_date rs)"

text \<open>
  \<^verbatim>\<open>scrape_event_fights(event_url, event_date)\<close>.  \<open>get_soup\<close> is the fetch: \<open>None\<close> when
  it fails, otherwise the page, given by the rows that
  \<^verbatim>\<open>soup.select("tr.b-fight-details__table-row[data-link]")\<close> returns.
\<close>

definition scrape_event_fights :: "(string \<Rightarrow> row list option) \<Rightarrow> string \<Rightarrow> string \<Rightarrow> pydict list" where
  "scrape_event_fights get_soup event_url event_date =
     (case get_soup event_url of
        None \<Rightarrow> []
      | Some fight_rows \<Rightarrow> scrape_rows event_date fight_rows)"

section \<open>fighter_organizer.py: update_fighter_index\<close>

text \<open>
  \<^verbatim>\<open>
  def update_fighter_index(all_fights_data):
      fighter_index = defaultdict(list)
      unique_fighters_in_class = defaultdict(set)
      for fight in all_fights_data:
          wc = fight.get("weight_class", "Unknown")
          if wc == "N/A" or not wc: wc = "Unknown"
          fighters_in_fight = [
              {"name": fight.get("fighter1_name"), "url": fight.get("fighter1_url")},
              {"name": fight.get("fighter2_name"), "url": fight.get("fighter2_url")}
          ]
          for fighter in fighters_in_fight:
              if fighter["name"] and fighter["name"] != "N/A" and fighter["url"]:
                  fighter_tuple = (fighter["name"], fighter["url"])
                  if fighter_tuple not in unique_fighters_in_class[wc]:
                      unique_fighters_in_class[wc].add(fighter_tuple)
                      fighter_index[wc].append({"name": fighter["name"], "url": fighter["url"]})
      for wc in fighter_index:
          fighter_index[wc] = sorted(fighter_index[wc], key=lambda x: x['name'])
      data_manager.save_fighter_index(dict(fighter_index))
      return dict(fighter_index)
  \<close>
  The state of the first loop is the two dictionaries; a \<^verbatim>\<open>defaultdict(set)\<close> is a total
  function into sets.  The write to disk does not change the returned dictionary.
\<close>

record fighter =
  name :: jval
  url :: jval

record index_state =
  fighter_index :: "string \<rightharpoonup> fighter list"
  unique_fighters_in_class :: "string \<Rightarrow> (jval \<times> jval) set"

definition fight_wc :: "pydict \<Rightarrow> string" where
  "fight_wc fight =
     (case dict_get_default fight ''weight_class'' (JStr ''Unknown'') of
        JNone \<Rightarrow> ''Unknown''
      | JStr wc \<Rightarrow> if wc = ''N/A'' \<or> wc = [] then ''Unknown'' else wc)"

definition fighters_in_fight :: "pydict \<Rightarrow> fighter list" where
  "fighters_in_fight fight =
     [\<lparr>name = dict_get fight ''fighter1_name'', url = dict_get fight ''fighter1_url''\<rparr>,
      \<lparr>name = dict_get fight ''fighter2_name'', url = dict_get fight ''fighter2_url''\<rparr>]"

definition add_fighter :: "string \<Rightarrow> index_state \<Rightarrow> fighter \<Rightarrow> index_state" where
  "add_fighter wc st f =
     (if truthy (name f) \<and> name f \<noteq> JStr ''N/A'' \<and> truthy (url f) then
        (let fighter_tuple = (name f, url f) in
         if fighter_tuple \<notin> unique_fighters_in_class st wc then
           \<lparr>fighter_index =
              (fighter_index st)
                (wc \<mapsto> (case fighter_index st wc of None \<Rightarrow> [] | Some l \<Rightarrow> l)
                         @ [\<lparr>name = name f, url = url f\<rparr>]),
            unique_fighters_in_class =
              (unique_fighters_in_class st)
                (wc := insert fighter_tuple (unique_fighters_in_class st wc))\<rparr>
         else st)
      else st)"

definition add_fight :: "index_state \<Rightarrow> pydict \<Rightarrow> index_state" where
  "add_fight st fight = foldl (add_fighter (fight_wc fight)) st (fighters_in_fight fight)"

text \<open>
  The key of the sort.  Every stored name is a string (lemma \<open>stored_names_are_strings\<close>
  below), so the comparison of \<^verbatim>\<open>None\<close> with a string, on which \<^verbatim>\<open>sorted\<close> would
  raise, does not occur.  Strings compare by code point, lexicographically, and
  \<^verbatim>\<open>sorted\<close> is stable, as \<^const>\<open>sort_key\<close> is.
\<close>

definition name_key :: "fighter \<Rightarrow> string" where
  "name_key f = (case name f of JStr s \<Rightarrow> s | JNone \<Rightarrow> [])"

definition update_fighter_index :: "pydict list \<Rightarrow> (string \<rightharpoonup> fighter list)" where
  "update_fighter_index all_fights_data =
     (let st = foldl add_fight
                 \<lparr>fighter_index = Map.empty, unique_fighters_in_class = (\<lambda>wc. {})\<rparr>
                 all_fights_data
      in (\<lambda>wc. map_option (sort_key name_key) (fighter_index st wc)))"

section \<open>app.py: predict\<close>

text \<open>\<^verbatim>\<open>str(n)\<close> for an \<^verbatim>\<open>int\<close>.\<close>

function str_of_nat :: "nat \<Rightarrow> string" where
  "str_of_nat n =
     (if n < 10 then [char_of (48 + n)] else str_of_nat (n div 10) @ [char_of (48 + n mod 10)])"
  by pat_completeness auto
termination
  by (relation "measure id") auto

definition str_of_int :: "int \<Rightarrow> string" where
  "str_of_int i = (if i < 0 then CHR ''-'' # str_of_nat (nat (- i)) else str_of_nat (nat i))"

text \<open>
  The two classifiers are loaded objects of a library.  What the endpoint uses of one is
  \<^verbatim>\<open>int(model.predict(input_df)[0])\<close> and \<^verbatim>\<open>model.predict_proba(input_df)[0]\<close>, each of
  which may raise; \<open>input_df\<close> is the one-row frame of the feature values under the
  feature names.  \<open>'p\<close> is the type of a probability, \<open>'f\<close> of a feature value.
\<close>

datatype exn = AttributeError | OtherError

record ('f, 'p) classifier =
  predict_class :: "string list \<Rightarrow> 'f list \<Rightarrow> exn + int"
  predict_proba :: "string list \<Rightarrow> 'f list \<Rightarrow> exn + 'p list"

record 'f prediction_request =
  r_fighter_name :: string
  b_fighter_name :: string
  features :: "'f list"

record 'p prediction_response =
  resp_r_fighter_name :: string
  resp_b_fighter_name :: string
  predicted_winner :: string
  winner_determination_class :: string
  confidence :: 'p
  finish_prediction :: string
  resp_note :: string

datatype detail = Text string | ModelsNotLoaded string string

datatype http_exception = HTTPException nat detail

text \<open>
  The globals that \<^verbatim>\<open>load_application_models\<close> sets, and the configuration: the models
  directory as text, and \<^verbatim>\<open>round(confidence, 4)\<close> on a probability.
\<close>

record ('f, 'p) app_state =
  model_fight_winner :: "('f, 'p) classifier option"
  model_finish_prediction :: "('f, 'p) classifier option"
  feature_names :: "string list"
  MODELS_DIR :: string
  round4 :: "'p \<Rightarrow> 'p"

definition winner_class_map :: "int \<rightharpoonup> string" where
  "winner_class_map = map_of [(0, ''Red''), (1, ''Blue'')]"

definition finish_map :: "int \<rightharpoonup> string" where
  "finish_map =
     map_of [(0, ''KO/TKO''), (1, ''Submission''), (2, ''Decision - Unanimous''),
             (3, ''Decision - Split''), (4, ''Decision - Majority''), (5, ''DQ'')]"

text \<open>\<^verbatim>\<open>xs[i]\<close>: a negative index counts from the end; out of range raises.\<close>

definition py_index :: "'a list \<Rightarrow> int \<Rightarrow> exn + 'a" where
  "py_index xs i =
     (if 0 \<le> i \<and> i < int (length xs) then Inr (xs ! nat i)
      else if i < 0 \<and> - i \<le> int (length xs) then Inr (xs ! nat (int (length xs) + i))
      else Inl OtherError)"

text \<open>Lines 104-136: the \<^verbatim>\<open>try\<close> block, with the exception that leaves it.\<close>

definition predict_body ::
  "('f, 'p) app_state \<Rightarrow> ('f, 'p) classifier \<Rightarrow> ('f, 'p) classifier \<Rightarrow> 'f prediction_request
     \<Rightarrow> exn + 'p prediction_response" where
  "predict_body st winner_model finish_model request_data =
     (case predict_proba winner_model (feature_names st) (features request_data) of
        Inl e \<Rightarrow> Inl e
      | Inr winner_pred_proba \<Rightarrow>
     (case predict_class winner_model (feature_names st) (features request_data) of
        Inl e \<Rightarrow> Inl e
      | Inr winner_pred_class \<Rightarrow>
     (let predicted_winner_label =
            (case winner_class_map winner_pred_class of
               None \<Rightarrow> ''Unknown Class '' @ str_of_int winner_pred_class
             | Some l \<Rightarrow> l);
          predicted_winner_name =
            (if predicted_winner_label = ''Red'' then r_fighter_name request_data
             else if predicted_winner_label = ''Blue'' then b_fighter_name request_data
             else predicted_winner_label)
      in
     (case py_index winner_pred_proba winner_pred_class of
        Inl e \<Rightarrow> Inl e
      | Inr confidence_val \<Rightarrow>
     (case predict_class finish_model (feature_names st) (features request_data) of
        Inl e \<Rightarrow> Inl e
      | Inr finish_pred_class \<Rightarrow>
          Inr \<lparr>resp_r_fighter_name = r_fighter_name request_data,
               resp_b_fighter_name = b_fighter_name request_data,
               predicted_winner = predicted_winner_name,
               winner_determination_class = predicted_winner_label,
               confidence = round4 st confidence_val,
               finish_prediction =
                 (case finish_map finish_pred_class of
                    None \<Rightarrow> ''Unknown Finish Method (Class '' @ str_of_int finish_pred_class @ '')''
                  | Some l \<Rightarrow> l),
               resp_note = ''Predictions based on XGBoost models.''\<rparr>)))))"

text \<open>
  \<^verbatim>\<open>
  async def predict(request_data: PredictionRequest):
      if not model_fight_winner or not model_finish_prediction:
          raise HTTPException(status_code=503, detail={...})
      if not feature_names:
          raise HTTPException(status_code=503, detail="Feature names configuration is missing. Cannot make predictions.")
      if len(request_data.features) != len(feature_names):
          raise HTTPException(status_code=400, detail=f"Feature mismatch. Expected {len(feature_names)} features, got {len(request_data.features)}.")
      try:
          ...
      except AttributeError as ae:
          raise HTTPException(status_code=500, detail="Prediction failed due to a model interface error.")
      except Exception as e:
          raise HTTPException(status_code=500, detail="Prediction failed due to an internal error.")
  \<close>
\<close>

definition predict ::
  "('f, 'p) app_state \<Rightarrow> 'f prediction_request \<Rightarrow> http_exception + 'p prediction_response" where
  "predict st request_data =
     (case (model_fight_winner st, model_finish_prediction st) of
        (Some winner_model, Some finish_model) \<Rightarrow>
          if feature_names st = [] then
            Inl (HTTPException 503
                   (Text ''Feature names configuration is missing. Cannot make predictions.''))
          else if length (features request_data) \<noteq> length (feature_names st) then
            Inl (HTTPException 400
                   (Text (''Feature mismatch. Expected '' @ str_of_nat (length (feature_names st))
                          @ '' features, got '' @ str_of_nat (length (features request_data))
                          @ ''.'')))
          else
            (case predict_body st winner_model finish_model request_data of
               Inr response \<Rightarrow> Inr response
             | Inl AttributeError \<Rightarrow>
                 Inl (HTTPException 500 (Text ''Prediction failed due to a model interface error.''))
             | Inl OtherError \<Rightarrow>
                 Inl (HTTPException 500 (Text ''Prediction failed due to an internal error.'')))
      | _ \<Rightarrow>
          Inl (HTTPException 503
                 (ModelsNotLoaded ''Models not loaded.''
                    (''Ensure model files are in '' @ MODELS_DIR st))))"

section \<open>Example inputs\<close>

text \<open>A fight row of ten cells, and the same row cut down to eight.\<close>

definition empty_cell :: cell where
  "empty_cell =
     \<lparr>td_anchors = [], td_status = None, td_table_text = None, td_text = [], td_text_sep = []\<rparr>"

definition example_row :: row where
  "example_row =
     \<lparr>data_link = Some ''/fight-details/f1'',
      tds =
        [empty_cell\<lparr>td_status := Some (Some [''b-fight-details__person-status'',
                                              ''b-fight-details__person-status_style_green''])\<rparr>,
         empty_cell\<lparr>td_anchors :=
           [\<lparr>a_text = '' Ann  Lee '', a_href = Some ''/fighter-details/a1''\<rparr>,
            \<lparr>a_text = ''Bea Kim'', a_href = Some ''http://ufcstats.com/fighter-details/b2''\<rparr>]\<rparr>,
         empty_cell, empty_cell, empty_cell, empty_cell,
         empty_cell\<lparr>td_table_text := Some ''Lightweight Bout''\<rparr>,
         empty_cell\<lparr>td_text_sep := ''KO/TKO Punch''\<rparr>,
         empty_cell\<lparr>td_text := ''2''\<rparr>,
         empty_cell\<lparr>td_text := ''4:13''\<rparr>]\<rparr>"

definition short_row :: row where
  "short_row = example_row\<lparr>tds := take 8 (tds example_row)\<rparr>"

text \<open>A loaded application with two feature names, and a request.\<close>

definition example_classifier :: "(int, int) classifier" where
  "example_classifier =
     \<lparr>predict_class = (\<lambda>cols row. Inr 0), predict_proba = (\<lambda>cols row. Inr [80, 20])\<rparr>"

definition example_app_state :: "(int, int) app_state" where
  "example_app_state =
     \<lparr>model_fight_winner = Some example_classifier,
      model_finish_prediction = Some example_classifier,
      feature_names = [''age_diff'', ''reach_diff''],
      MODELS_DIR = ''/srv/models'',
      round4 = (\<lambda>p. p)\<rparr>"

definition example_request :: "int list \<Rightarrow> int prediction_request" where
  "example_request fs =
     \<lparr>r_fighter_name = ''Ann Lee'', b_fighter_name = ''Bea Kim'', features = fs\<rparr>"

text \<open>
  Fights as dictionaries: two lightweight fights that share one fighter, and a fight
  whose first participant has the name "N/A" and no URL.
\<close>

definition mk_fight :: "string \<Rightarrow> jval \<Rightarrow> jval \<Rightarrow> jval \<Rightarrow> jval \<Rightarrow> pydict" where
  "mk_fight wc n1 u1 n2 u2 =
     map_of [(''fighter1_name'', n1), (''fighter1_url'', u1), (''fighter2_name'', n2),
             (''fighter2_url'', u2), (''weight_class'', JStr wc)]"



definition fight_c :: pydict where
  "fight_c = mk_fight ''Lightweight'' (JStr ''N/A'') JNone
               (JStr ''Dee Poe'') (JStr ''http://ufcstats.com/fighter-details/d4'')"

section \<open>Notions used in the proofs\<close>

text \<open>
  The list stored for a weight class (empty when the class has no key), the guard of the
  inner loop, the tuple that identifies a fighter, the initial state of the first loop,
  and the invariant of that loop: in every class the stored tuples are exactly the
  tuples of the stored fighters, without repetition, and no stored list is empty.
\<close>

definition entries :: "index_state \<Rightarrow> string \<Rightarrow> fighter list" where
  "entries st wc = (case fighter_index st wc of None \<Rightarrow> [] | Some l \<Rightarrow> l)"

definition valid_fighter :: "fighter \<Rightarrow> bool" where
  "valid_fighter f \<longleftrightarrow> truthy (name f) \<and> name f \<noteq> JStr ''N/A'' \<and> truthy (url f)"

definition fighter_key :: "fighter \<Rightarrow> jval \<times> jval" where
  "fighter_key f = (name f, url f)"

definition index_inv :: "index_state \<Rightarrow> bool" where
  "index_inv st \<longleftrightarrow>
     (\<forall>wc. fighter_key ` set (entries st wc) = unique_fighters_in_class st wc \<and>
           distinct (map fighter_key (entries st wc)) \<and>
           fighter_index st wc \<noteq> Some [])"

definition initial_index_state :: index_state where
  "initial_index_state = \<lparr>fighter_index = Map.empty, unique_fighters_in_class = (\<lambda>wc. {})\<rparr>"

text \<open>What may follow the identifier in a URL that the pattern accepts.\<close>

definition id_tail :: "string \<Rightarrow> bool" where
  "id_tail t \<longleftrightarrow> t = [] \<or> t = [newline]"

text \<open>A text without white space, and a list of such texts, none empty.\<close>

definition spacefree :: "string \<Rightarrow> bool" where
  "spacefree w \<longleftrightarrow> list_all (\<lambda>c. \<not> isspace c) w"

definition tokens_ok :: "string list \<Rightarrow> bool" where
  "tokens_ok ws \<longleftrightarrow> list_all (\<lambda>w. w \<noteq> [] \<and> spacefree w) ws"

text \<open>The alternatives of the bout-suffix pattern, by themselves.\<close>

definition bout_alts :: regex where
  "bout_alts =
     Alt (Str ''Bout'')
    (Alt (Str ''Title Bout'')
    (Alt (Seq (Str ''Interim'') (Seq (Star Dot) (Str ''Title Bout'')))
    (Alt (Seq (Str ''Catch Weight'') (Star Dot))
    (Alt (Seq (Str ''The Ultimate Fighter'') (Seq (Star Dot) (Str ''Final'')))
         (Seq (Str ''Tournament'') (Seq (Star Dot) (Str ''Final'')))))))"

text \<open>The number that a run of decimal digits denotes.\<close>

definition decimal :: "string \<Rightarrow> int" where
  "decimal s = foldl (\<lambda>acc c. acc * 10 + digit_val c) 0 s"

text \<open>
  The normalizer, stated on words.  A text without a newline is a bout-type suffix if,
  in lower case, it is "bout" or "title bout", starts with "interim" and ends after that
  in "title bout", starts with "catch weight", or starts with "the ultimate fighter" or
  with "tournament" and ends after that in "final".  \<open>cut_suffix\<close> keeps the words up to
  the first one after which the rest of the words, joined by blanks, is a bout-type
  suffix; \<open>drop_ufc\<close> drops a first word "UFC" that another word follows.
\<close>

definition is_bout_suffix :: "string \<Rightarrow> bool" where
  "is_bout_suffix t \<longleftrightarrow>
     (let lt = map ascii_lower t
      in lt = ''bout'' \<or> lt = ''title bout'' \<or>
         (prefix ''interim'' lt \<and> suffix ''title bout'' (drop 7 lt)) \<or>
         prefix ''catch weight'' lt \<or>
         (prefix ''the ultimate fighter'' lt \<and> suffix ''final'' (drop 20 lt)) \<or>
         (prefix ''tournament'' lt \<and> suffix ''final'' (drop 10 lt)))"

fun cut_suffix :: "string list \<Rightarrow> string list" where
  "cut_suffix [] = []"
| "cut_suffix (w # ws) =
     (if ws \<noteq> [] \<and> is_bout_suffix (py_join '' '' ws) then [w] else w # cut_suffix ws)"

definition drop_ufc :: "string list \<Rightarrow> string list" where
  "drop_ufc ws =
     (case ws of
        w # v # vs \<Rightarrow> if map ascii_lower w = ''ufc'' then v # vs else ws
      | _ \<Rightarrow> ws)"

definition normalize_words :: "string list \<Rightarrow> string" where
  "normalize_words ws =
     (if ws = [] then ''Unknown'' else py_join '' '' (drop_ufc (cut_suffix ws)))"



section \<open>The fight-row extractor\<close>

lemma fight_of_row_None_iff:
  "fight_of_row event_date r = None \<longleftrightarrow>
     data_link r = None \<or> data_link r = Some [] \<or> length (tds r) < 10"
  by (simp add: fight_of_row_def Let_def split: option.splits)

lemma fight_of_row_fields:
  assumes "fight_of_row event_date r = Some fight"
  shows "\<exists>n1 n2. fight ''fighter1_name'' = Some (JStr n1) \<and>
           fight ''fighter2_name'' = Some (JStr n2) \<and>
           fight ''winner'' = Some (JStr (resolve_winner (td_status (tds r ! 0)) n1 n2))"
  using assms
  by (auto simp add: fight_of_row_def Let_def split: option.splits if_splits)

lemma scrape_rows_append:
  "scrape_rows d (xs @ ys) = scrape_rows d xs @ scrape_rows d ys"
  by (induction xs) (auto split: option.splits)

lemma scrape_rows_origin:
  "f \<in> set (scrape_rows d rs) \<Longrightarrow> \<exists>r \<in> set rs. fight_of_row d r = Some f"
  by (induction rs) (auto split: option.splits)

lemma resolve_winner_cases:
  "resolve_winner s n1 n2 \<in> {n1, n2, ''Draw'', ''No Contest'', ''N/A''}"
  by (simp add: resolve_winner_def Let_def split: option.splits)

lemma example_row_scraped: "\<exists>fight. fight_of_row d example_row = Some fight"
proof -
  have "fight_of_row d example_row \<noteq> None"
    by (simp add: fight_of_row_None_iff example_row_def)
  then show ?thesis by blast
qed

text \<open>
  Claim C1.  For a row that yields a fight record, the \<open>winner\<close> field is fixed by
  the class list of fighter 1's status icon: the green class gives fighter 1's extracted
  name; otherwise the red class gives fighter 2's extracted name; otherwise the blue class
  gives "Draw"; otherwise the yellow class gives "No Contest"; and with none of these
  classes, or with no status tag at all, the winner is "N/A".
\<close>

theorem winner_resolution:
  assumes "fight_of_row event_date r = Some fight"
  shows "\<exists>n1 n2 w.
           fight ''fighter1_name'' = Some (JStr n1) \<and>
           fight ''fighter2_name'' = Some (JStr n2) \<and>
           fight ''winner'' = Some (JStr w) \<and>
           (case td_status (tds r ! 0) of
              None \<Rightarrow> w = ''N/A''
            | Some None \<Rightarrow> w = ''N/A''
            | Some (Some status_classes) \<Rightarrow>
                if ''b-fight-details__person-status_style_green'' \<in> set status_classes
                  then w = n1
                else if ''b-fight-details__person-status_style_red'' \<in> set status_classes
                  then w = n2
                else if ''b-fight-details__person-status_style_blue'' \<in> set status_classes
                  then w = ''Draw''
                else if ''b-fight-details__person-status_style_yellow'' \<in> set status_classes
                  then w = ''No Contest''
                else w = ''N/A'')"
proof -
  from fight_of_row_fields[OF assms] obtain n1 n2 where
    f: "fight ''fighter1_name'' = Some (JStr n1)" "fight ''fighter2_name'' = Some (JStr n2)"
       "fight ''winner'' = Some (JStr (resolve_winner (td_status (tds r ! 0)) n1 n2))"
    by blast
  have "case td_status (tds r ! 0) of
              None \<Rightarrow> resolve_winner (td_status (tds r ! 0)) n1 n2 = ''N/A''
            | Some None \<Rightarrow> resolve_winner (td_status (tds r ! 0)) n1 n2 = ''N/A''
            | Some (Some status_classes) \<Rightarrow>
                if ''b-fight-details__person-status_style_green'' \<in> set status_classes
                  then resolve_winner (td_status (tds r ! 0)) n1 n2 = n1
                else if ''b-fight-details__person-status_style_red'' \<in> set status_classes
                  then resolve_winner (td_status (tds r ! 0)) n1 n2 = n2
                else if ''b-fight-details__person-status_style_blue'' \<in> set status_classes
                  then resolve_winner (td_status (tds r ! 0)) n1 n2 = ''Draw''
                else if ''b-fight-details__person-status_style_yellow'' \<in> set status_classes
                  then resolve_winner (td_status (tds r ! 0)) n1 n2 = ''No Contest''
                else resolve_winner (td_status (tds r ! 0)) n1 n2 = ''N/A''"
    by (simp add: resolve_winner_def Let_def split: option.splits)
  with f show ?thesis by blast
qed

theorem winner_resolution_witness:
  "\<exists>fight. fight_of_row ''May 04, 2024'' example_row = Some fight \<and>
     fight ''winner'' = fight ''fighter1_name''"
proof -
  obtain fight where f: "fight_of_row ''May 04, 2024'' example_row = Some fight"
    using example_row_scraped by blast
  from winner_resolution[OF f] have "fight ''winner'' = fight ''fighter1_name''"
    by (auto simp add: example_row_def empty_cell_def)
  with f show ?thesis by blast
qed

text \<open>
  Claim C4.  A row that carries a fight-detail link but has fewer than 10 cells yields no
  record: the fights scraped from a page are those of the rows before it followed by
  those of the rows after it.  The witness is a row of 8 cells between two full rows.
\<close>

theorem short_row_skipped:
  assumes "data_link r \<noteq> None" and "length (tds r) < 10"
    and "get_soup event_url = Some (rows_before @ r # rows_after)"
  shows "fight_of_row event_date r = None \<and>
         scrape_event_fights get_soup event_url event_date =
           scrape_rows event_date rows_before @ scrape_rows event_date rows_after"
proof -
  have n: "fight_of_row event_date r = None"
    using assms(2) by (simp add: fight_of_row_None_iff)
  then show ?thesis
    using assms(3) by (simp add: scrape_event_fights_def scrape_rows_append)
qed

theorem short_row_skipped_witness:
  "length (tds short_row) = 8 \<and>
   length (scrape_event_fights (\<lambda>u. Some [example_row, short_row, example_row]) ''u'' ''d'') = 2"
proof -
  have l: "length (tds short_row) < 10" and l8: "length (tds short_row) = 8"
    by (simp_all add: short_row_def example_row_def)
  have d: "data_link short_row \<noteq> None"
    by (simp add: short_row_def example_row_def)
  have g: "(\<lambda>u. Some [example_row, short_row, example_row]) ''u''
             = Some ([example_row] @ short_row # [example_row])"
    by simp
  obtain fight where f: "fight_of_row ''d'' example_row = Some fight"
    using example_row_scraped by blast
  from short_row_skipped[OF d l g, of "''d''"] f l8 show ?thesis by simp
qed

text \<open>
  Claim C8.  In every fight record that the extractor returns, the winner is fighter 1's
  extracted name, fighter 2's extracted name, "Draw", "No Contest" or "N/A".
\<close>

theorem winner_is_name_or_sentinel:
  assumes "fight \<in> set (scrape_event_fights get_soup event_url event_date)"
  shows "\<exists>n1 n2 w.
           fight ''fighter1_name'' = Some (JStr n1) \<and>
           fight ''fighter2_name'' = Some (JStr n2) \<and>
           fight ''winner'' = Some (JStr w) \<and>
           (w = n1 \<or> w = n2 \<or> w = ''Draw'' \<or> w = ''No Contest'' \<or> w = ''N/A'')"
proof -
  from assms obtain rows where "get_soup event_url = Some rows"
      and "fight \<in> set (scrape_rows event_date rows)"
    by (cases "get_soup event_url") (auto simp add: scrape_event_fights_def)
  then obtain r where "fight_of_row event_date r = Some fight"
    using scrape_rows_origin by blast
  from fight_of_row_fields[OF this] obtain n1 n2 where
    f: "fight ''fighter1_name'' = Some (JStr n1)" "fight ''fighter2_name'' = Some (JStr n2)"
       "fight ''winner'' = Some (JStr (resolve_winner (td_status (tds r ! 0)) n1 n2))"
    by blast
  from resolve_winner_cases[of "td_status (tds r ! 0)" n1 n2] f show ?thesis
    by auto
qed

theorem winner_is_name_or_sentinel_witness:
  "\<exists>fight. scrape_event_fights (\<lambda>u. Some [example_row]) ''u'' ''d'' = [fight] \<and>
     (\<exists>n1 n2 w. fight ''fighter1_name'' = Some (JStr n1) \<and>
           fight ''fighter2_name'' = Some (JStr n2) \<and>
           fight ''winner'' = Some (JStr w) \<and>
           (w = n1 \<or> w = n2 \<or> w = ''Draw'' \<or> w = ''No Contest'' \<or> w = ''N/A''))"
proof -
  obtain fight where f: "fight_of_row ''d'' example_row = Some fight"
    using example_row_scraped by blast
  then have s: "scrape_event_fights (\<lambda>u. Some [example_row]) ''u'' ''d'' = [fight]"
    by (simp add: scrape_event_fights_def)
  then have "fight \<in> set (scrape_event_fights (\<lambda>u. Some [example_row]) ''u'' ''d'')"
    by simp
  from winner_is_name_or_sentinel[OF this] s show ?thesis by blast
qed

section \<open>The prediction endpoint\<close>

text \<open>
  Claim C9.  With both models and a non-empty feature-name list loaded, a request whose
  feature vector differs in length from the feature-name list is answered with an HTTP
  400 error; and whenever a prediction is returned, the two lengths are equal.
\<close>

theorem feature_length_mismatch_rejected:
  assumes "model_fight_winner st = Some winner_model"
    and "model_finish_prediction st = Some finish_model"
    and "feature_names st \<noteq> []"
  shows "(length (features request_data) \<noteq> length (feature_names st) \<longrightarrow>
            (\<exists>d. predict st request_data = Inl (HTTPException 400 d))) \<and>
         (\<forall>response. predict st request_data = Inr response \<longrightarrow>
            length (features request_data) = length (feature_names st))"
  using assms
  by (auto simp add: predict_def split: sum.splits exn.splits)

theorem feature_length_mismatch_rejected_witness:
  "(\<exists>d. predict example_app_state (example_request [1, 2, 3]) = Inl (HTTPException 400 d)) \<and>
   (\<exists>response. predict example_app_state (example_request [1, 2]) = Inr response)"
proof -
  have a: "model_fight_winner example_app_state = Some example_classifier"
    and b: "model_finish_prediction example_app_state = Some example_classifier"
    and c: "feature_names example_app_state \<noteq> []"
    by (simp_all add: example_app_state_def)
  have l: "length (features (example_request [1, 2, 3]))
             \<noteq> length (feature_names example_app_state)"
    by (simp add: example_app_state_def example_request_def)
  have r: "\<exists>response. predict example_app_state (example_request [1, 2]) = Inr response"
    by (simp add: predict_def predict_body_def example_app_state_def example_request_def
        example_classifier_def py_index_def winner_class_map_def)
  from feature_length_mismatch_rejected[OF a b c, of "example_request [1, 2, 3]"] l r
  show ?thesis by blast
qed

section \<open>The fighter index\<close>

lemma fighter_eta: "\<lparr>name = name f, url = url f\<rparr> = (f :: fighter)"
  by simp

lemma entries_add_fighter:
  assumes "index_inv st"
  shows "entries (add_fighter wc st f) wc' =
           (if wc' = wc \<and> valid_fighter f \<and> fighter_key f \<notin> fighter_key ` set (entries st wc)
            then entries st wc @ [f] else entries st wc')"
  using assms
  by (auto simp add: add_fighter_def entries_def valid_fighter_def fighter_key_def index_inv_def
      Let_def split: option.splits)

lemma inv_add_fighter:
  assumes "index_inv st"
  shows "index_inv (add_fighter wc st f)"
  unfolding index_inv_def
proof (intro allI conjI)
  fix wc'
  show "fighter_key ` set (entries (add_fighter wc st f) wc') =
          unique_fighters_in_class (add_fighter wc st f) wc'"
    using assms
    by (auto simp add: entries_add_fighter[OF assms] index_inv_def)
       (auto simp add: add_fighter_def valid_fighter_def fighter_key_def Let_def split: if_splits)
  show "distinct (map fighter_key (entries (add_fighter wc st f) wc'))"
    using assms by (auto simp add: entries_add_fighter[OF assms] index_inv_def)
  show "fighter_index (add_fighter wc st f) wc' \<noteq> Some []"
    using assms by (auto simp add: add_fighter_def index_inv_def Let_def)
qed

lemma fighter_key_inj: "fighter_key f = fighter_key g \<Longrightarrow> f = g"
  by (simp add: fighter_key_def)

lemma set_entries_add_fighter:
  assumes "index_inv st"
  shows "set (entries (add_fighter wc st f) wc') =
           set (entries st wc') \<union> (if wc' = wc \<and> valid_fighter f then {f} else {})"
  using fighter_key_inj by (auto simp add: entries_add_fighter[OF assms])

lemma inv_foldl_add_fighter:
  "index_inv st \<Longrightarrow> index_inv (foldl (add_fighter wc) st fs)"
  by (induction fs arbitrary: st) (simp_all add: inv_add_fighter)

lemma set_entries_foldl_add_fighter:
  "index_inv st \<Longrightarrow>
   set (entries (foldl (add_fighter wc) st fs) wc') =
     set (entries st wc') \<union> {f \<in> set fs. wc' = wc \<and> valid_fighter f}"
proof (induction fs arbitrary: st)
  case Nil
  then show ?case by simp
next
  case (Cons f fs)
  have "index_inv (add_fighter wc st f)"
    using Cons.prems by (rule inv_add_fighter)
  from Cons.IH[OF this] show ?case
    by (auto simp add: set_entries_add_fighter[OF Cons.prems])
qed

lemma inv_add_fight: "index_inv st \<Longrightarrow> index_inv (add_fight st fight)"
  by (simp add: add_fight_def inv_foldl_add_fighter)


lemma set_entries_foldl_add_fight:
  "index_inv st \<Longrightarrow>
   set (entries (foldl add_fight st fights) wc) =
     set (entries st wc) \<union>
     {f. \<exists>fight \<in> set fights. fight_wc fight = wc \<and> f \<in> set (fighters_in_fight fight)
           \<and> valid_fighter f}"
proof (induction fights arbitrary: st)
  case Nil
  then show ?case by simp
next
  case (Cons fight fights)
  have "index_inv (add_fight st fight)"
    using Cons.prems by (rule inv_add_fight)
  from Cons.IH[OF this] show ?case
    by (auto simp add: add_fight_def set_entries_foldl_add_fighter[OF Cons.prems])
qed

lemma inv_initial: "index_inv initial_index_state"
  by (simp add: index_inv_def initial_index_state_def entries_def)

lemma update_fighter_index_eq:
  "update_fighter_index fights wc =
     map_option (sort_key name_key) (fighter_index (foldl add_fight initial_index_state fights) wc)"
  by (simp add: update_fighter_index_def initial_index_state_def Let_def)

lemma update_fighter_index_Some:
  assumes "update_fighter_index fights wc = Some l"
  shows "l = sort_key name_key (entries (foldl add_fight initial_index_state fights) wc)"
  using assms by (auto simp add: update_fighter_index_eq entries_def)

lemma update_fighter_index_entries:
  "entries (foldl add_fight initial_index_state fights) wc \<noteq> [] \<Longrightarrow>
   update_fighter_index fights wc =
     Some (sort_key name_key (entries (foldl add_fight initial_index_state fights) wc))"
  by (auto simp add: update_fighter_index_eq entries_def split: option.splits)

lemma set_update_fighter_index:
  assumes "update_fighter_index fights wc = Some l"
  shows "set l = {f. \<exists>fight \<in> set fights. fight_wc fight = wc \<and>
                      f \<in> set (fighters_in_fight fight) \<and> valid_fighter f}"
  using set_entries_foldl_add_fight[OF inv_initial, of fights wc]
  by (simp add: update_fighter_index_Some[OF assms] entries_def initial_index_state_def)



lemmas index_eval =
  update_fighter_index_def add_fight_def add_fighter_def fighters_in_fight_def fight_wc_def
  dict_get_def dict_get_default_def name_key_def mk_fight_def Let_def


lemma example_index_c:
  "update_fighter_index [fight_c] ''Lightweight'' =
     Some [\<lparr>name = JStr ''Dee Poe'', url = JStr ''http://ufcstats.com/fighter-details/d4''\<rparr>]"
  by (simp add: index_eval fight_c_def)



text \<open>
  Claim C10.  No entry of the built index has a missing or empty name, the name "N/A", or
  a missing or empty URL; and every participant that passes the guard is listed under the
  weight class of its fight, whatever the other participant of that fight is.
\<close>

theorem invalid_participants_excluded:
  "(\<forall>wc l f. update_fighter_index all_fights_data wc = Some l \<longrightarrow> f \<in> set l \<longrightarrow>
       name f \<noteq> JNone \<and> name f \<noteq> JStr [] \<and> name f \<noteq> JStr ''N/A'' \<and>
       url f \<noteq> JNone \<and> url f \<noteq> JStr []) \<and>
   (\<forall>fight \<in> set all_fights_data. \<forall>g \<in> set (fighters_in_fight fight).
       truthy (name g) \<and> name g \<noteq> JStr ''N/A'' \<and> truthy (url g) \<longrightarrow>
       (\<exists>l. update_fighter_index all_fights_data (fight_wc fight) = Some l \<and> g \<in> set l))"
proof -
  have excluded: "name f \<noteq> JNone \<and> name f \<noteq> JStr [] \<and> name f \<noteq> JStr ''N/A'' \<and>
       url f \<noteq> JNone \<and> url f \<noteq> JStr []"
    if "update_fighter_index all_fights_data wc = Some l" and "f \<in> set l" for wc l f
  proof -
    from that have "valid_fighter f" by (auto simp add: set_update_fighter_index)
    then show ?thesis by (auto simp add: valid_fighter_def)
  qed
  have included: "\<exists>l. update_fighter_index all_fights_data (fight_wc fight) = Some l \<and> g \<in> set l"
    if f: "fight \<in> set all_fights_data" and g: "g \<in> set (fighters_in_fight fight)"
      and v: "truthy (name g) \<and> name g \<noteq> JStr ''N/A'' \<and> truthy (url g)" for fight g
  proof -
    let ?es = "entries (foldl add_fight initial_index_state all_fights_data) (fight_wc fight)"
    have m: "g \<in> set ?es"
      using f g v by (auto simp add: set_entries_foldl_add_fight[OF inv_initial] valid_fighter_def)
    then have ne: "?es \<noteq> []" by auto
    from m have "g \<in> set (sort_key name_key ?es)" by simp
    then show ?thesis
      using update_fighter_index_entries[OF ne] by simp
  qed
  from excluded included show ?thesis by blast
qed

theorem invalid_participants_excluded_witness:
  "update_fighter_index [fight_c] ''Lightweight'' =
     Some [\<lparr>name = JStr ''Dee Poe'', url = JStr ''http://ufcstats.com/fighter-details/d4''\<rparr>] \<and>
   dict_get fight_c ''fighter1_name'' = JStr ''N/A'' \<and>
   dict_get fight_c ''fighter1_url'' = JNone \<and>
   name (hd (the (update_fighter_index [fight_c] ''Lightweight''))) \<noteq> JStr ''N/A''"
proof -
  have "hd (the (update_fighter_index [fight_c] ''Lightweight'')) \<in> set (the (update_fighter_index [fight_c] ''Lightweight''))"
    by (simp add: example_index_c)
  with invalid_participants_excluded[of "[fight_c]"] example_index_c
  have "name (hd (the (update_fighter_index [fight_c] ''Lightweight''))) \<noteq> JStr ''N/A''"
    by (metis option.sel)
  then show ?thesis
    by (simp add: example_index_c) (simp add: fight_c_def mk_fight_def dict_get_def)
qed

section \<open>The fighter identifier of a URL\<close>

declare sub_from.simps [simp del]

lemma concat_map_if_filter:
  "concat (map (\<lambda>x. if P x then [x] else []) xs) = filter P xs"
  by (induction xs) auto

lemma cs_match_AlNum: "cs_match ic AlNum = is_alnum"
  by (rule ext) simp

lemma cs_match_WSpace: "cs_match ic WSpace = isspace"
  by (rule ext) simp

lemma rmatch_Eol_fun:
  "rmatch ic n Eol = (\<lambda>st. if fst st = [] \<or> fst st = [newline] then [st] else [])"
  by (rule ext) simp

lemma rmatch_Seq_Eol:
  "rmatch ic n (Seq a Eol) st =
     filter (\<lambda>st'. fst st' = [] \<or> fst st' = [newline]) (rmatch ic n a st)"
  by (simp add: rmatch_Eol_fun concat_map_if_filter)

lemma str_rest_exact: "str_rest False l s = Some r \<longleftrightarrow> s = l @ r"
  by (induction False l s rule: str_rest.induct) auto

lemma not_alnum_newline: "\<not> is_alnum newline"
  by (simp add: is_alnum_def newline_def)

lemma filter_eol_star_rests:
  "filter (\<lambda>r. r = [] \<or> r = [newline]) (star_rests is_alnum xs) =
     (if dropWhile is_alnum xs = [] \<or> dropWhile is_alnum xs = [newline]
      then [dropWhile is_alnum xs] else [])"
  by (induction xs) (auto simp add: not_alnum_newline)

lemma take_length_dropWhile:
  "take (length xs - length (dropWhile P xs)) xs = takeWhile P xs"
proof -
  have "length xs - length (dropWhile P xs) = length (takeWhile P xs)"
    by (metis add_diff_cancel_right' length_append takeWhile_dropWhile_id)
  then show ?thesis by (simp add: takeWhile_eq_take[symmetric])
qed

lemma rmatch_id_tail:
  "rmatch False n (Seq (Group (Plus AlNum)) Eol) (r, g) =
     (if takeWhile is_alnum r \<noteq> [] \<and> (dropWhile is_alnum r = [] \<or> dropWhile is_alnum r = [newline])
      then [(dropWhile is_alnum r, Some (takeWhile is_alnum r))] else [])"
proof (cases r)
  case Nil
  then show ?thesis by (simp add: concat_map_if_filter)
next
  case (Cons x xs)
  show ?thesis
  proof (cases "is_alnum x")
    case False
    with Cons show ?thesis by (simp add: concat_map_if_filter)
  next
    case True
    have "rmatch False n (Seq (Group (Plus AlNum)) Eol) (r, g) =
            map (\<lambda>r'. (r', Some (take (length r - length r') r)))
              (filter (\<lambda>r. r = [] \<or> r = [newline]) (star_rests is_alnum xs))"
      using Cons True
      by (simp only: rmatch_Seq_Eol) (simp add: filter_map comp_def cs_match_AlNum)
    also have "\<dots> = (if dropWhile is_alnum xs = [] \<or> dropWhile is_alnum xs = [newline]
                      then [(dropWhile is_alnum xs,
                             Some (take (length r - length (dropWhile is_alnum xs)) r))]
                      else [])"
      by (simp add: filter_eol_star_rests)
    finally show ?thesis
      using Cons True take_length_dropWhile[of r is_alnum] by (auto simp del: length_dropWhile_le)
  qed
qed

lemma takeWhile_alnum_tail:
  assumes "list_all is_alnum i" and "id_tail t"
  shows "takeWhile is_alnum (i @ t) = i" and "dropWhile is_alnum (i @ t) = t"
  using assms by (auto simp add: id_tail_def list_all_iff not_alnum_newline takeWhile_append2
      dropWhile_append2)

lemma match_at_id_rx:
  "match_at False n (Seq (Str k) (Seq (Group (Plus AlNum)) Eol)) s = Some st \<longleftrightarrow>
     (\<exists>i t. s = k @ i @ t \<and> i \<noteq> [] \<and> list_all is_alnum i \<and> id_tail t \<and> st = (t, Some i))"
proof (cases "str_rest False k s")
  case None
  then have "\<And>r. s \<noteq> k @ r"
    using str_rest_exact[of k s] by auto
  then have "\<And>i t. s \<noteq> k @ i @ t" by blast
  with None show ?thesis
    by (auto simp add: match_at_def)
next
  case (Some r)
  then have s: "s = k @ r"
    by (simp only: str_rest_exact)
  have m: "rmatch False n (Seq (Str k) (Seq (Group (Plus AlNum)) Eol)) (s, None) =
             rmatch False n (Seq (Group (Plus AlNum)) Eol) (r, None)"
    using Some by simp
  show ?thesis
  proof
    assume "match_at False n (Seq (Str k) (Seq (Group (Plus AlNum)) Eol)) s = Some st"
    then have "takeWhile is_alnum r \<noteq> []"
      and "id_tail (dropWhile is_alnum r)"
      and "st = (dropWhile is_alnum r, Some (takeWhile is_alnum r))"
      by (auto simp add: match_at_def m rmatch_id_tail id_tail_def
          simp del: rmatch.simps split: if_splits)
    moreover have "list_all is_alnum (takeWhile is_alnum r)"
      by (auto simp add: list_all_iff dest: set_takeWhileD)
    moreover have "s = k @ takeWhile is_alnum r @ dropWhile is_alnum r"
      using s by simp
    ultimately show "\<exists>i t. s = k @ i @ t \<and> i \<noteq> [] \<and> list_all is_alnum i
        \<and> id_tail t \<and> st = (t, Some i)"
      by blast
  next
    assume "\<exists>i t. s = k @ i @ t \<and> i \<noteq> [] \<and> list_all is_alnum i
        \<and> id_tail t \<and> st = (t, Some i)"
    then obtain i t where e: "s = k @ i @ t" "i \<noteq> []" "list_all is_alnum i"
        "id_tail t" "st = (t, Some i)"
      by blast
    with s have r: "r = i @ t" by simp
    have "rmatch False n (Seq (Group (Plus AlNum)) Eol) (r, None) = [(t, Some i)]"
      using e(2,4) takeWhile_alnum_tail[OF e(3) e(4)]
      by (simp add: rmatch_id_tail r id_tail_def del: rmatch.simps)
    then show "match_at False n (Seq (Str k) (Seq (Group (Plus AlNum)) Eol)) s = Some st"
      by (simp add: match_at_def m e(5) del: rmatch.simps)
  qed
qed

lemma search_from_Some:
  "search_from ic n r s = Some st \<Longrightarrow> \<exists>pre suf. s = pre @ suf \<and> match_at ic n r suf = Some st"
proof (induction s)
  case Nil
  then show ?case by simp
next
  case (Cons x xs)
  show ?case
  proof (cases "match_at ic n r (x # xs)")
    case None
    with Cons obtain pre suf where "xs = pre @ suf" "match_at ic n r suf = Some st"
      by auto
    then have "x # xs = (x # pre) @ suf \<and> match_at ic n r suf = Some st" by simp
    then show ?thesis by blast
  next
    case (Some st')
    with Cons.prems have "x # xs = [] @ (x # xs) \<and> match_at ic n r (x # xs) = Some st"
      by simp
    then show ?thesis by blast
  qed
qed

lemma search_from_finds:
  "match_at ic n r suf \<noteq> None \<Longrightarrow> search_from ic n r (pre @ suf) \<noteq> None"
proof (induction pre)
  case Nil
  then show ?case by (cases suf) auto
next
  case (Cons x pre)
  then show ?case by (auto split: option.splits)
qed

lemma not_alnum_slash: "\<not> is_alnum (CHR ''/'')"
  by (simp add: is_alnum_def)

lemma takeWhile_rev_last_segment:
  assumes "sep \<notin> set a"
  shows "takeWhile (\<lambda>c. c \<noteq> sep) (rev (xs @ sep # a)) = rev a"
proof -
  have "rev (xs @ sep # a) = rev a @ sep # rev xs" by simp
  moreover have "takeWhile (\<lambda>c. c \<noteq> sep) (rev a @ sep # rev xs) = rev a"
    using assms by (induction a rule: rev_induct) auto
  ultimately show ?thesis by (simp only:)
qed

lemma last_segment_unique:
  assumes "sep \<notin> set a" and "sep \<notin> set b" and "xs @ sep # a = ys @ sep # b"
  shows "a = b"
proof -
  have "takeWhile (\<lambda>c. c \<noteq> sep) (rev (xs @ sep # a)) =
        takeWhile (\<lambda>c. c \<noteq> sep) (rev (ys @ sep # b))"
    by (rule arg_cong[OF assms(3)])
  then have "rev a = rev b"
    by (simp only: takeWhile_rev_last_segment[OF assms(1)] takeWhile_rev_last_segment[OF assms(2)])
  then show ?thesis by simp
qed

lemma no_slash_id:
  assumes "list_all is_alnum j" and "id_tail u"
  shows "CHR ''/'' \<notin> set (j @ u)"
proof -
  have "CHR ''/'' \<notin> set j"
    using assms(1) not_alnum_slash by (auto simp add: list_all_iff)
  moreover have "CHR ''/'' \<notin> set u"
    using assms(2) by (auto simp add: id_tail_def newline_def)
  ultimately show ?thesis by simp
qed

lemma id_unique:
  assumes "pre @ (k @ [CHR ''/'']) @ i @ t = pre' @ (k @ [CHR ''/'']) @ i' @ t'"
    and "list_all is_alnum i" "id_tail t" "list_all is_alnum i'" "id_tail t'"
  shows "i = i'"
proof -
  have "(pre @ k) @ CHR ''/'' # (i @ t) = (pre' @ k) @ CHR ''/'' # (i' @ t')"
    using assms(1) by simp
  from last_segment_unique[OF no_slash_id[OF assms(2,3)] no_slash_id[OF assms(4,5)] this]
  have "takeWhile is_alnum (i @ t) = takeWhile is_alnum (i' @ t')" by (rule arg_cong)
  then show ?thesis
    by (simp only: takeWhile_alnum_tail(1)[OF assms(2,3)] takeWhile_alnum_tail(1)[OF assms(4,5)])
qed

lemma search_id_rx_iff:
  assumes u: "u \<noteq> []"
  shows "map_option snd (search_from False n (Seq (Str (k @ [CHR ''/''])) (Seq (Group (Plus AlNum)) Eol)) u)
           = Some (Some i) \<longleftrightarrow>
         (\<exists>pre t. u = pre @ (k @ [CHR ''/'']) @ i @ t \<and> i \<noteq> [] \<and> list_all is_alnum i \<and> id_tail t)"
    (is "?l \<longleftrightarrow> ?r")
proof
  let ?rx = "Seq (Str (k @ [CHR ''/''])) (Seq (Group (Plus AlNum)) Eol)"
  assume ?l
  then obtain st where "search_from False n ?rx u = Some st" "snd st = Some i"
    by auto
  then obtain pre suf where ps: "u = pre @ suf" "match_at False n ?rx suf = Some st"
    using search_from_Some by blast
  from ps(2) obtain j t where jt: "suf = (k @ [CHR ''/'']) @ j @ t" "j \<noteq> []" "list_all is_alnum j"
      "id_tail t" "st = (t, Some j)"
    unfolding match_at_id_rx by blast
  from jt(5) \<open>snd st = Some i\<close> have "j = i" by simp
  with ps(1) jt show ?r by blast
next
  let ?rx = "Seq (Str (k @ [CHR ''/''])) (Seq (Group (Plus AlNum)) Eol)"
  assume ?r
  then obtain pre t where e: "u = pre @ (k @ [CHR ''/'']) @ i @ t" "i \<noteq> []"
      "list_all is_alnum i" "id_tail t"
    by blast
  then have "match_at False n ?rx ((k @ [CHR ''/'']) @ i @ t) = Some (t, Some i)"
    unfolding match_at_id_rx by blast
  then have "search_from False n ?rx (pre @ (k @ [CHR ''/'']) @ i @ t) \<noteq> None"
    using search_from_finds[of False n ?rx "(k @ [CHR ''/'']) @ i @ t" pre] by simp
  then obtain st where st: "search_from False n ?rx u = Some st"
    using e(1) by auto
  then obtain pre' suf where "u = pre' @ suf" "match_at False n ?rx suf = Some st"
    using search_from_Some by blast
  then obtain i' t' where e': "u = pre' @ (k @ [CHR ''/'']) @ i' @ t'" "list_all is_alnum i'"
      "id_tail t'" "st = (t', Some i')"
    unfolding match_at_id_rx by blast
  have "pre @ (k @ [CHR ''/'']) @ i @ t = pre' @ (k @ [CHR ''/'']) @ i' @ t'"
    using e(1) e'(1) by simp
  from id_unique[OF this e(3,4) e'(2,3)] have "i = i'" .
  then show ?l
    using st e'(4) by simp
qed

lemma fighter_id_rx_eq:
  "fighter_id_rx = Seq (Str (''fighter-details'' @ [CHR ''/''])) (Seq (Group (Plus AlNum)) Eol)"
  by (simp add: fighter_id_rx_def)

lemma parse_fighter_id_iff:
  "parse_fighter_id_from_url (Some u) = Some i \<longleftrightarrow>
     (\<exists>pre t. u = pre @ ''fighter-details/'' @ i @ t \<and> i \<noteq> [] \<and> list_all is_alnum i \<and> id_tail t)"
proof (cases "u = []")
  case True
  then show ?thesis by (simp add: parse_fighter_id_from_url_def)
next
  case False
  have "parse_fighter_id_from_url (Some u) = Some i \<longleftrightarrow>
          map_option snd (search_from False (length u) fighter_id_rx u) = Some (Some i)"
    using False
    by (auto simp add: parse_fighter_id_from_url_def re_search_def split: option.splits)
  also have "\<dots> \<longleftrightarrow> (\<exists>pre t. u = pre @ (''fighter-details'' @ [CHR ''/'']) @ i @ t \<and> i \<noteq> []
                        \<and> list_all is_alnum i \<and> id_tail t)"
    unfolding fighter_id_rx_eq by (rule search_id_rx_iff[OF False])
  also have "(''fighter-details'' @ [CHR ''/'']) = ''fighter-details/''" by simp
  finally show ?thesis .
qed

lemma parse_fighter_id_decomposed:
  assumes "i \<noteq> []" and "list_all is_alnum i" and "id_tail t"
  shows "parse_fighter_id_from_url (Some (pre @ ''fighter-details/'' @ i @ t)) = Some i"
  unfolding parse_fighter_id_iff using assms by blast

text \<open>
  Claim C7, as amended.  The result is the identifier \<open>i\<close> exactly when the URL ends with
  "fighter-details/" followed by \<open>i\<close>, a non-empty run of ASCII letters and digits,
  itself followed by nothing or by one final newline; for every other URL, and for a
  missing or empty one, the result is null.
\<close>

theorem fighter_id_extraction:
  "parse_fighter_id_from_url None = None \<and>
   parse_fighter_id_from_url (Some []) = None \<and>
   parse_fighter_id_from_url (Some ''http://site/fighter-details/abc123'') = Some ''abc123'' \<and>
   (\<forall>u i. parse_fighter_id_from_url (Some u) = Some i \<longleftrightarrow>
      (\<exists>pre t. u = pre @ ''fighter-details/'' @ i @ t \<and> i \<noteq> [] \<and> list_all is_alnum i \<and>
                (t = [] \<or> t = [newline])))"
proof -
  have "parse_fighter_id_from_url (Some (''http://site/'' @ ''fighter-details/'' @ ''abc123'' @ []))
          = Some ''abc123''"
    by (rule parse_fighter_id_decomposed) (simp_all add: is_alnum_def id_tail_def)
  then have "parse_fighter_id_from_url (Some ''http://site/fighter-details/abc123'') = Some ''abc123''"
    by simp
  moreover have "parse_fighter_id_from_url None = None"
    and "parse_fighter_id_from_url (Some []) = None"
    by (simp_all add: parse_fighter_id_from_url_def)
  ultimately show ?thesis
    using parse_fighter_id_iff by (simp only: id_tail_def) blast
qed

text \<open>
  The claim as stated fails on a URL that ends with a newline: the URL does not end with
  the fighter-details segment, and the result is not null.
\<close>

theorem fighter_id_newline_counterexample:
  "parse_fighter_id_from_url (Some (''http://site/fighter-details/abc123'' @ [newline]))
     = Some ''abc123'' \<and>
   \<not> suffix ''fighter-details/abc123'' (''http://site/fighter-details/abc123'' @ [newline])"
proof -
  have "parse_fighter_id_from_url (Some (''http://site/'' @ ''fighter-details/'' @ ''abc123'' @ [newline]))
          = Some ''abc123''"
    by (rule parse_fighter_id_decomposed) (simp_all add: is_alnum_def id_tail_def)
  then have "parse_fighter_id_from_url (Some (''http://site/fighter-details/abc123'' @ [newline]))
     = Some ''abc123''"
    by simp
  moreover have "\<not> suffix ''fighter-details/abc123'' (''http://site/fighter-details/abc123'' @ [newline])"
    by (simp add: suffix_to_prefix newline_def)
  ultimately show ?thesis by blast
qed

section \<open>Cleaning and normalizing weight-class text\<close>

lemma spacefree_simps [simp]:
  "spacefree []"
  "spacefree (c # w) \<longleftrightarrow> \<not> isspace c \<and> spacefree w"
  "spacefree (v @ w) \<longleftrightarrow> spacefree v \<and> spacefree w"
  by (auto simp add: spacefree_def)

lemma tokens_ok_simps [simp]:
  "tokens_ok []"
  "tokens_ok (w # ws) \<longleftrightarrow> w \<noteq> [] \<and> spacefree w \<and> tokens_ok ws"
  by (auto simp add: tokens_ok_def)

lemma isspace_blank [simp]: "isspace CHR '' ''"
  by (simp add: isspace_def)

lemma split_ws_tokens: "spacefree cur \<Longrightarrow> tokens_ok (split_ws cur s)"
  by (induction s arbitrary: cur) auto

lemma py_split_tokens: "tokens_ok (py_split s)"
  by (simp add: py_split_def split_ws_tokens)

lemma split_ws_spacefree: "spacefree w \<Longrightarrow> split_ws cur (w @ s) = split_ws (cur @ w) s"
  by (induction w arbitrary: cur) auto

lemma split_ws_token: "spacefree w \<Longrightarrow> cur @ w \<noteq> [] \<Longrightarrow> split_ws cur w = [cur @ w]"
  using split_ws_spacefree[of w cur "[]"] by simp

lemma split_join:
  "tokens_ok ws \<Longrightarrow> py_split (py_join '' '' ws) = ws"
proof (induction ws rule: induct_list012)
  case 1
  then show ?case by (simp add: py_split_def)
next
  case (2 w)
  then show ?case by (simp add: py_split_def split_ws_token)
next
  case (3 w v ws)
  then have "py_split (py_join '' '' (v # ws)) = v # ws" by simp
  moreover have "split_ws [] (w @ CHR '' '' # py_join '' '' (v # ws)) =
                   w # split_ws [] (py_join '' '' (v # ws))"
    using "3.prems" by (simp add: split_ws_spacefree)
  ultimately show ?case by (simp add: py_split_def)
qed

lemma join_head:
  "tokens_ok ws \<Longrightarrow> ws \<noteq> [] \<Longrightarrow> \<exists>r. py_join '' '' ws = hd (hd ws) # r \<and> \<not> isspace (hd (hd ws))"
  by (induction ws rule: induct_list012) (auto simp add: neq_Nil_conv)

lemma join_last:
  "tokens_ok ws \<Longrightarrow> ws \<noteq> [] \<Longrightarrow> py_join '' '' ws \<noteq> [] \<and> \<not> isspace (last (py_join '' '' ws))"
proof (induction ws rule: induct_list012)
  case (2 w)
  then show ?case by (cases w rule: rev_cases) auto
next
  case (3 w v ws)
  then show ?case by auto
qed simp

lemma py_strip_id:
  assumes "s = [] \<or> (\<not> isspace (hd s) \<and> \<not> isspace (last s))"
  shows "py_strip s = s"
proof (cases s)
  case Nil
  then show ?thesis by (simp add: py_strip_def)
next
  case (Cons x xs)
  with assms have h: "\<not> isspace x" and l: "\<not> isspace (last s)" by auto
  from h Cons have "dropWhile isspace s = s" by simp
  moreover have "dropWhile isspace (rev s) = rev s"
  proof -
    have "s \<noteq> []" using Cons by simp
    then obtain ys y where ys: "s = ys @ [y]" using rev_exhaust by blast
    with l have "\<not> isspace y" by simp
    with ys show ?thesis by simp
  qed
  ultimately show ?thesis by (simp add: py_strip_def)
qed

lemma clean_text_join: "clean_text (Some s) = py_join '' '' (py_split s)"
proof (cases "py_split s = []")
  case True
  then show ?thesis by (simp add: clean_text_def py_strip_def)
next
  case False
  from join_head[OF py_split_tokens False] join_last[OF py_split_tokens False]
  have "py_strip (py_join '' '' (py_split s)) = py_join '' '' (py_split s)"
    by (intro py_strip_id) auto
  then show ?thesis by (simp add: clean_text_def)
qed

lemma clean_text_idem: "clean_text (Some (clean_text (Some s))) = clean_text (Some s)"
  by (simp add: clean_text_join split_join py_split_tokens)

lemma clean_text_tokens: "tokens_ok ws \<Longrightarrow> clean_text (Some (py_join '' '' ws)) = py_join '' '' ws"
  by (simp add: clean_text_join split_join)

lemma clean_text_head: "clean_text (Some s) = [] \<or> \<not> isspace (hd (clean_text (Some s)))"
proof (cases "py_split s = []")
  case True
  then show ?thesis by (simp add: clean_text_join)
next
  case False
  from join_head[OF py_split_tokens False] show ?thesis
    by (auto simp add: clean_text_join)
qed

lemma split_ws_prefix:
  "spacefree p \<Longrightarrow> cur @ p \<noteq> [] \<Longrightarrow> \<exists>t ts. split_ws cur (p @ s) = ((cur @ p) @ t) # ts"
proof (induction s arbitrary: cur p)
  case Nil
  then show ?case by (simp add: split_ws_token)
next
  case (Cons c s)
  show ?case
  proof (cases "isspace c")
    case True
    then show ?thesis using Cons.prems by (auto simp add: split_ws_spacefree)
  next
    case False
    have "split_ws cur (p @ c # s) = split_ws cur ((p @ [c]) @ s)" by simp
    moreover from Cons.IH[of "p @ [c]" cur] False Cons.prems
    obtain t ts where "split_ws cur ((p @ [c]) @ s) = ((cur @ p @ [c]) @ t) # ts"
      by auto
    ultimately have "split_ws cur (p @ c # s) = ((cur @ p) @ (c # t)) # ts" by simp
    then show ?thesis by blast
  qed
qed

lemma clean_text_prefix:
  assumes "spacefree p" and "p \<noteq> []"
  shows "prefix p (clean_text (Some (p @ s)))"
proof -
  from split_ws_prefix[OF assms(1), of "[]" s] assms(2)
  obtain t ts where "py_split (p @ s) = (p @ t) # ts" by (auto simp add: py_split_def)
  then have "\<exists>r. py_join '' '' (py_split (p @ s)) = p @ r"
    by (cases ts) auto
  then show ?thesis by (auto simp add: clean_text_join)
qed

lemma str_rest_ci_Some:
  "str_rest True l s = Some r \<Longrightarrow> \<exists>p. s = p @ r \<and> map ascii_lower p = map ascii_lower l"
proof (induction True l s rule: str_rest.induct)
  case (1 s)
  then show ?case by simp
next
  case (2 c cs)
  then show ?case by simp
next
  case (3 c cs x xs)
  then have "ascii_lower x = ascii_lower c" and "str_rest True cs xs = Some r"
    by (auto split: if_splits)
  with 3 obtain p where "xs = p @ r" "map ascii_lower p = map ascii_lower cs" by auto
  with \<open>ascii_lower x = ascii_lower c\<close>
  have "x # xs = (x # p) @ r \<and> map ascii_lower (x # p) = map ascii_lower (c # cs)" by simp
  then show ?case by blast
qed

lemma str_rest_ci_match:
  "map ascii_lower p = map ascii_lower l \<Longrightarrow> str_rest True l (p @ r) = Some r"
  by (induction l arbitrary: p) auto

lemma match_at_suffix_nonspace:
  "\<not> isspace x \<Longrightarrow> match_at True n bout_suffix_rx (x # xs) = None"
  by (simp add: match_at_def bout_suffix_rx_def)

lemma match_at_suffix_Nil: "match_at True n bout_suffix_rx [] = None"
  by (simp add: match_at_def bout_suffix_rx_def)

lemma sub_from_suffix_Nil: "sub_from True n bout_suffix_rx repl [] = []"
  by (subst sub_from.simps) (simp add: match_at_suffix_Nil)

lemma sub_from_suffix_nonspace:
  "\<not> isspace x \<Longrightarrow>
   sub_from True n bout_suffix_rx repl (x # xs) = x # sub_from True n bout_suffix_rx repl xs"
  by (subst sub_from.simps) (simp add: match_at_suffix_nonspace)

lemma sub_from_suffix_spacefree:
  "spacefree p \<Longrightarrow>
   sub_from True n bout_suffix_rx repl (p @ s) = p @ sub_from True n bout_suffix_rx repl s"
  by (induction p) (simp_all add: sub_from_suffix_nonspace)

lemma match_at_prefix_later: "length s \<noteq> n \<Longrightarrow> match_at True n ufc_prefix_rx s = None"
  by (simp add: match_at_def ufc_prefix_rx_def)

lemma sub_from_prefix_later: "length s < n \<Longrightarrow> sub_from True n ufc_prefix_rx repl s = s"
proof (induction s)
  case Nil
  then show ?case
    by (subst sub_from.simps) (simp add: match_at_prefix_later)
next
  case (Cons x xs)
  then have "sub_from True n ufc_prefix_rx repl xs = xs" by simp
  with Cons.prems show ?case
    by (subst sub_from.simps) (simp add: match_at_prefix_later)
qed

lemma star_rests_hd: "\<exists>rs. star_rests P s = dropWhile P s # rs"
  by (induction s) auto

lemma match_at_prefix_start:
  "match_at True (length s) ufc_prefix_rx s =
     (case str_rest True ''UFC'' s of
        None \<Rightarrow> None
      | Some r \<Rightarrow>
          (case r of
             [] \<Rightarrow> None
           | y # ys \<Rightarrow> if isspace y then Some (dropWhile isspace ys, None) else None))"
proof (cases "str_rest True ''UFC'' s")
  case None
  then show ?thesis
    by (simp add: match_at_def ufc_prefix_rx_def del: str_rest.simps)
next
  case (Some r)
  show ?thesis
  proof (cases r)
    case Nil
    with Some show ?thesis
      by (simp add: match_at_def ufc_prefix_rx_def del: str_rest.simps)
  next
    case (Cons y ys)
    obtain rs where "star_rests isspace ys = dropWhile isspace ys # rs"
      using star_rests_hd by blast
    with Some Cons show ?thesis
      by (simp add: match_at_def ufc_prefix_rx_def cs_match_WSpace del: str_rest.simps)
  qed
qed

lemma re_sub_prefix_cases:
  "re_sub True ufc_prefix_rx [] s =
     (case match_at True (length s) ufc_prefix_rx s of None \<Rightarrow> s | Some st \<Rightarrow> fst st)"
proof (cases "match_at True (length s) ufc_prefix_rx s")
  case None
  show ?thesis
  proof (cases s)
    case Nil
    with None show ?thesis
      unfolding re_sub_def by (subst sub_from.simps) simp
  next
    case (Cons x xs)
    then have "sub_from True (length s) ufc_prefix_rx [] xs = xs"
      by (simp add: sub_from_prefix_later)
    with None Cons show ?thesis
      unfolding re_sub_def by (subst sub_from.simps) simp
  qed
next
  case (Some st)
  then obtain r y ys where r: "str_rest True ''UFC'' s = Some r" "r = y # ys"
      "st = (dropWhile isspace ys, None)"
    by (auto simp add: match_at_prefix_start simp del: str_rest.simps
        split: option.splits list.splits if_splits)
  from str_rest_ci_Some[OF r(1)] obtain p where "s = p @ r" by blast
  with r(2) have "length ys < length s" by simp
  moreover have "length (dropWhile isspace ys) \<le> length ys"
    by (rule length_dropWhile_le)
  ultimately have l: "length (fst st) < length s"
    using r(3) by simp
  then have "sub_from True (length s) ufc_prefix_rx [] (fst st) = fst st"
    by (rule sub_from_prefix_later)
  with Some l show ?thesis
    unfolding re_sub_def by (subst sub_from.simps) simp
qed

lemma re_sub_prefix_head:
  assumes "s = [] \<or> \<not> isspace (hd s)"
  shows "re_sub True ufc_prefix_rx [] s = [] \<or> \<not> isspace (hd (re_sub True ufc_prefix_rx [] s))"
proof (cases "match_at True (length s) ufc_prefix_rx s")
  case None
  with assms show ?thesis by (simp add: re_sub_prefix_cases)
next
  case (Some st)
  then obtain ys where "fst st = dropWhile isspace ys"
    by (auto simp add: match_at_prefix_start simp del: str_rest.simps
        split: option.splits list.splits if_splits)
  moreover have "dropWhile isspace ys = [] \<or> \<not> isspace (hd (dropWhile isspace ys))"
    using hd_dropWhile[of isspace ys] by blast
  ultimately show ?thesis
    using Some by (simp add: re_sub_prefix_cases)
qed

lemma re_sub_suffix_head:
  assumes "s = [] \<or> \<not> isspace (hd s)"
  shows "re_sub True bout_suffix_rx [] s = [] \<or> \<not> isspace (hd (re_sub True bout_suffix_rx [] s))"
proof (cases s)
  case Nil
  then show ?thesis by (simp add: re_sub_def sub_from_suffix_Nil)
next
  case (Cons x xs)
  with assms have "\<not> isspace x" by simp
  with Cons show ?thesis by (simp add: re_sub_def sub_from_suffix_nonspace)
qed

lemma clean_text_nonempty:
  assumes "s \<noteq> []" and "\<not> isspace (hd s)"
  shows "clean_text (Some s) \<noteq> []"
proof -
  from assms obtain x xs where s: "s = [x] @ xs" and "spacefree [x]"
    by (cases s) auto
  from clean_text_prefix[OF this(2), of xs] s show ?thesis by auto
qed

lemma clean_text_Unknown: "clean_text (Some ''Unknown'') = ''Unknown''"
  using clean_text_tokens[of "[''Unknown'']"] by (simp add: isspace_def)

lemma normalize_nonempty: "normalize_weight_class w \<noteq> []"
proof (cases w)
  case None
  then show ?thesis by (simp add: normalize_weight_class_def)
next
  case (Some s)
  let ?s3 = "re_sub True ufc_prefix_rx [] (re_sub True bout_suffix_rx [] (clean_text (Some s)))"
  have "?s3 = [] \<or> \<not> isspace (hd ?s3)"
    by (intro re_sub_prefix_head re_sub_suffix_head clean_text_head)
  then have "?s3 \<noteq> [] \<Longrightarrow> clean_text (Some ?s3) \<noteq> []"
    using clean_text_nonempty by blast
  with Some show ?thesis by (auto simp add: normalize_weight_class_def Let_def)
qed

lemma normalize_clean:
  "clean_text (Some (normalize_weight_class w)) = normalize_weight_class w"
  by (cases w) (auto simp add: normalize_weight_class_def Let_def clean_text_idem clean_text_Unknown)

section \<open>What the normalizer strips and keeps\<close>

lemma bout_suffix_rx_alts: "bout_suffix_rx = Seq (Plus WSpace) (Seq (Group bout_alts) Eol)"
  by (simp add: bout_suffix_rx_def bout_alts_def)

lemma of_char_lower:
  "(of_char (ascii_lower c) :: nat) =
     (if 65 \<le> (of_char c :: nat) \<and> (of_char c :: nat) \<le> 90 then of_char c + 32 else of_char c)"
  by (simp add: ascii_lower_def Let_def)

lemma isspace_lower: "isspace (ascii_lower c) = isspace c"
  unfolding isspace_def Let_def of_char_lower by auto


lemma spacefree_lower: "spacefree (map ascii_lower p) = spacefree p"
  by (induction p) (simp_all add: isspace_lower)

lemma spacefree_ci: "map ascii_lower p = map ascii_lower l \<Longrightarrow> spacefree l \<Longrightarrow> spacefree p"
  by (metis spacefree_lower)

lemma star_rests_nonspace: "s = [] \<or> \<not> P (hd s) \<Longrightarrow> star_rests P s = [s]"
  by (cases s) auto

lemma star_rests_suffix: "r \<in> set (star_rests P s) \<Longrightarrow> suffix r s"
  by (induction s) (auto simp add: suffix_Cons split: if_splits)

lemma spacefree_suffix: "suffix r s \<Longrightarrow> spacefree s \<Longrightarrow> spacefree r"
  by (auto simp add: suffix_def)

lemma str_rest_suffix: "str_rest ic l s = Some r \<Longrightarrow> suffix r s"
  by (induction ic l s rule: str_rest.induct) (auto simp add: suffix_Cons split: if_splits)

lemma rmatch_suffix_pair: "(s', g') \<in> set (rmatch ic n r (s, g)) \<Longrightarrow> suffix s' s"
proof (induction r arbitrary: s g s' g')
  case (Chr cs)
  then show ?case by (cases s) (auto simp add: suffix_Cons split: if_splits)
next
  case (Str l)
  then show ?case by (cases "str_rest ic l s") (auto dest: str_rest_suffix)
next
  case (Seq a b)
  then obtain m where m: "m \<in> set (rmatch ic n a (s, g))" "(s', g') \<in> set (rmatch ic n b m)"
    by auto
  obtain s1 g1 where m1: "m = (s1, g1)" by (cases m)
  from Seq.IH(1)[of s1 g1 s g] m(1) m1 have "suffix s1 s" by simp
  moreover from Seq.IH(2)[of s' g' s1 g1] m(2) m1 have "suffix s' s1" by simp
  ultimately show ?case by (rule suffix_order.trans[rotated])
next
  case (Alt a b)
  from Alt.prems have "(s', g') \<in> set (rmatch ic n a (s, g)) \<or> (s', g') \<in> set (rmatch ic n b (s, g))"
    by simp
  then show ?case using Alt.IH by blast
next
  case (Star cs)
  then have "s' \<in> set (star_rests (cs_match ic cs) s)" by auto
  then show ?case by (rule star_rests_suffix)
next
  case (Plus cs)
  show ?case
  proof (cases s)
    case Nil
    with Plus show ?thesis by simp
  next
    case (Cons x xs)
    with Plus have "s' \<in> set (star_rests (cs_match ic cs) xs)" by (auto split: if_splits)
    then have "suffix s' xs" by (rule star_rests_suffix)
    with Cons show ?thesis by (simp add: suffix_Cons)
  qed
next
  case Bol
  then show ?case by (auto split: if_splits)
next
  case Eol
  then show ?case by (auto split: if_splits)
next
  case (Group a)
  from Group.prems obtain g0 where "(s', g0) \<in> set (rmatch ic n a (s, g))" by auto
  then show ?case by (rule Group.IH)
qed

lemma rmatch_suffix: "st' \<in> set (rmatch ic n r st) \<Longrightarrow> suffix (fst st') (fst st)"
  using rmatch_suffix_pair[of "fst st'" "snd st'" ic n r "fst st" "snd st"] by simp

lemma lower_literals:
  "map ascii_lower ''Bout'' = ''bout''"
  "map ascii_lower ''Title Bout'' = ''title bout''"
  "map ascii_lower ''Tournament'' = ''tournament''"
  "map ascii_lower ''UFC'' = ''ufc''"
  "map ascii_lower ''bout'' = ''bout''"
  "map ascii_lower ''title'' = ''title''"
  "map ascii_lower ''ufc'' = ''ufc''"
  by code_simp+

lemma filter_map_fst:
  "filter (\<lambda>st. P (fst st)) (map (\<lambda>st. (fst st, f st)) xs) =
     map (\<lambda>st. (fst st, f st)) (filter (\<lambda>st. P (fst st)) xs)"
  by (induction xs) auto

text \<open>
  At a white-space character that is followed by no other, the suffix pattern matches as
  its alternatives do on what follows, up to the end of the subject.
\<close>

lemma match_at_suffix_space:
  assumes "isspace x" and "s = [] \<or> \<not> isspace (hd s)"
  shows "match_at True n bout_suffix_rx (x # s) =
           (case filter (\<lambda>st. fst st = [] \<or> fst st = [newline]) (rmatch True n bout_alts (s, None)) of
              [] \<Rightarrow> None
            | st # _ \<Rightarrow> Some (fst st, Some (take (length s - length (fst st)) s)))"
proof -
  have p: "rmatch True n (Plus WSpace) (x # s, None) = [(s, None)]"
    using assms by (simp add: cs_match_WSpace star_rests_nonspace)
  have "rmatch True n (Seq (Plus WSpace) (Seq (Group bout_alts) Eol)) (x # s, None) =
          rmatch True n (Seq (Group bout_alts) Eol) (s, None)"
    by (simp only: rmatch.simps(3)[of True n "Plus WSpace"] p list.map concat.simps append_Nil2)
  also have "\<dots> = filter (\<lambda>st. fst st = [] \<or> fst st = [newline])
                      (map (\<lambda>st. (fst st, Some (take (length s - length (fst st)) s)))
                         (rmatch True n bout_alts (s, None)))"
    by (simp only: rmatch_Seq_Eol rmatch.simps(9) fst_conv)
  also have "\<dots> = map (\<lambda>st. (fst st, Some (take (length s - length (fst st)) s)))
                      (filter (\<lambda>st. fst st = [] \<or> fst st = [newline]) (rmatch True n bout_alts (s, None)))"
    by (rule filter_map_fst[where P = "\<lambda>r. r = [] \<or> r = [newline]"])
  finally show ?thesis
    by (simp add: match_at_def bout_suffix_rx_alts del: rmatch.simps split: list.splits)
qed

lemma sub_from_suffix_word: "spacefree w \<Longrightarrow> sub_from True n bout_suffix_rx repl w = w"
  using sub_from_suffix_spacefree[of w n repl "[]"] by (simp add: sub_from_suffix_Nil)

lemma re_sub_prefix_word:
  assumes "spacefree w"
  shows "re_sub True ufc_prefix_rx [] w = w"
proof -
  have "match_at True (length w) ufc_prefix_rx w = None"
  proof (cases "str_rest True ''UFC'' w")
    case None
    then show ?thesis by (simp add: match_at_prefix_start del: str_rest.simps)
  next
    case (Some r)
    then have "spacefree r" using assms str_rest_suffix spacefree_suffix by blast
    with Some show ?thesis
      by (cases r) (simp_all add: match_at_prefix_start del: str_rest.simps)
  qed
  then show ?thesis by (simp add: re_sub_prefix_cases)
qed

lemma str_rest_ci_mismatch:
  "ascii_lower x \<noteq> ascii_lower c \<Longrightarrow> str_rest True (c # cs) (x # xs) = None"
  by simp

lemma normalize_keeps_womens:
  assumes "prefix ''Women's'' (clean_text (Some s))"
  shows "prefix ''Women's'' (normalize_weight_class (Some s))"
proof -
  have sf: "spacefree ''Women's''" by (simp add: isspace_def)
  from assms obtain r where r: "clean_text (Some s) = ''Women's'' @ r"
    by (auto simp add: prefix_def)
  let ?s2 = "re_sub True bout_suffix_rx [] (clean_text (Some s))"
  have "?s2 = ''Women's'' @ sub_from True (length (''Women's'' @ r)) bout_suffix_rx [] r"
    unfolding r re_sub_def by (rule sub_from_suffix_spacefree[OF sf])
  then obtain r2 where s2: "?s2 = ''Women's'' @ r2" by blast
  have "ascii_lower CHR ''W'' \<noteq> ascii_lower CHR ''U''" by code_simp
  then have "str_rest True ''UFC'' (CHR ''W'' # (''omen's'' @ r2)) = None"
    by (rule str_rest_ci_mismatch)
  then have "str_rest True ''UFC'' ?s2 = None"
    unfolding s2 by (simp only: append_Cons)
  then have "match_at True (length ?s2) ufc_prefix_rx ?s2 = None"
    by (simp add: match_at_prefix_start del: str_rest.simps)
  then have s3: "re_sub True ufc_prefix_rx [] ?s2 = ?s2"
    by (simp add: re_sub_prefix_cases)
  have "?s2 \<noteq> []" using s2 by simp
  moreover have "prefix ''Women's'' (clean_text (Some ?s2))"
    unfolding s2 by (rule clean_text_prefix[OF sf]) simp
  ultimately show ?thesis
    by (simp add: normalize_weight_class_def Let_def s3)
qed

lemma split_ws_blank: "list_all isspace s \<Longrightarrow> split_ws [] s = []"
  by (induction s) auto

lemma normalize_blank:
  assumes "list_all isspace s"
  shows "normalize_weight_class (Some s) = ''Unknown''"
proof -
  have "clean_text (Some s) = []"
    using assms by (simp add: clean_text_join py_split_def split_ws_blank)
  moreover have "re_sub True bout_suffix_rx [] [] = []"
    by (simp add: re_sub_def sub_from_suffix_Nil)
  moreover have "re_sub True ufc_prefix_rx [] [] = []"
    by (simp add: re_sub_prefix_word)
  ultimately show ?thesis by (simp add: normalize_weight_class_def)
qed

lemma normalize_examples:
  "normalize_weight_class (Some ''Women's Strawweight Bout'') = ''Women's Strawweight''"
  "normalize_weight_class (Some ''UFC Lightweight Title Bout'') = ''Lightweight''"
  "normalize_weight_class (Some ''Bantamweight Interim Title Bout'') = ''Bantamweight''"
  "normalize_weight_class (Some ''Catch Weight Bout'') = ''Catch Weight''"
  "normalize_weight_class (Some ''Lightweight Tournament Final'') = ''Lightweight''"
  "normalize_weight_class (Some ''flyweight   bout'') = ''flyweight''"
  by code_simp+

section \<open>Heights in centimetres\<close>

lemma rhe_div_near:
  assumes "0 < b"
  shows "\<bar>2 * (b * rhe_div a b - a)\<bar> \<le> b"
proof -
  define q where "q = a div b"
  define r where "r = a mod b"
  have a: "a = b * q + r" by (simp add: q_def r_def)
  have r: "0 \<le> r" "r < b" using assms by (simp_all add: r_def)
  have "rhe_div a b = q \<and> 2 * r \<le> b \<or> rhe_div a b = q + 1 \<and> b \<le> 2 * r"
    by (auto simp add: rhe_div_def Let_def q_def[symmetric] r_def[symmetric])
  then show ?thesis
  proof
    assume "rhe_div a b = q \<and> 2 * r \<le> b"
    then show ?thesis using r by (simp add: a)
  next
    assume h: "rhe_div a b = q + 1 \<and> b \<le> 2 * r"
    then have "b * rhe_div a b - a = b - r" by (simp add: a algebra_simps)
    then show ?thesis using r h by simp
  qed
qed

lemma rhe_div_low:
  assumes "0 \<le> d" and "2 * d < b"
  shows "rhe_div (b * x + d) b = x"
proof -
  have b: "0 < b" using assms by simp
  have d: "d < b" using assms by simp
  have "(b * x + d) div b = x" using assms(1) d b by simp
  moreover have "(b * x + d) mod b = d" using assms(1) d by simp
  ultimately show ?thesis using assms(2) by (simp add: rhe_div_def Let_def)
qed

lemma rhe_div_tie:
  assumes "0 < h"
  shows "rhe_div (2 * h * k + h) (2 * h) = (if even k then k else k + 1)"
proof -
  have "(2 * h * k + h) div (2 * h) = k" using assms by simp
  moreover have "(2 * h * k + h) mod (2 * h) = h" using assms by simp
  ultimately show ?thesis by (simp add: rhe_div_def Let_def)
qed

lemma abs_twice_bounds:
  fixes x y b :: int
  assumes "\<bar>2 * (x - y)\<bar> \<le> b"
  shows "2 * x - 2 * y \<le> b" and "- b \<le> 2 * x - 2 * y"
  using assms by (simp_all add: abs_le_iff algebra_simps)

lemma float_of_int_small:
  assumes "0 \<le> n" and "n < 2 ^ 53"
  shows "float_of_int n = Inr (n, 0)"
proof -
  have "bitlen \<bar>n\<bar> \<le> 53" using assms by (simp add: bitlen_le_iff_power)
  then show ?thesis by (simp add: float_of_int_def to_double_def Let_def)
qed

lemma round_big:
  assumes "0 < P" and "53 < bitlen P" and "bitlen P \<le> 99"
    and "bitlen \<bar>rhe_div P (2 ^ nat (bitlen P - 53))\<bar> \<le> 100"
  shows "map_sum id py_round (to_double (P, - 51)) =
           Inr (rhe_div (rhe_div P (2 ^ nat (bitlen P - 53))) (2 ^ nat (104 - bitlen P)))"
proof -
  have a: "\<bar>P\<bar> = P" and sg: "sgn P = 1" using assms(1) by simp_all
  have b: "\<not> bitlen P \<le> 53" using assms(2) by simp
  have c: "\<not> 1024 < bitlen \<bar>rhe_div P (2 ^ nat (bitlen P - 53))\<bar> + (- 51 + (bitlen P - 53))"
    using assms(3,4) by linarith
  have "to_double (P, - 51) =
          Inr (rhe_div P (2 ^ nat (bitlen P - 53)), - 51 + (bitlen P - 53))"
    unfolding to_double_def Let_def fst_conv snd_conv a sg using b c by simp
  moreover have "\<not> 0 \<le> - 51 + (bitlen P - 53)" using assms(3) by linarith
  moreover have "nat (- (- 51 + (bitlen P - 53))) = nat (104 - bitlen P)" by simp
  ultimately show ?thesis
    by (simp add: py_round_def)
qed

lemma round_small:
  assumes "bitlen \<bar>P\<bar> \<le> 53"
  shows "map_sum id py_round (to_double (P, - 51)) = Inr (rhe_div P (2 ^ 51))"
proof -
  have "to_double (P, - 51) = Inr (P, - 51)"
    using assms by (simp add: to_double_def Let_def)
  then show ?thesis by (simp add: py_round_def)
qed

text \<open>Two roundings in a row, to 53 bits and then to an integer, stay near the product.\<close>

lemma two_roundings_near:
  fixes P S T q cm :: int
  assumes ST: "S * T = 2251799813685248" and S: "0 < S" "S \<le> 70368744177664"
    and near1: "\<bar>2 * (S * q - P)\<bar> \<le> S" and near2: "\<bar>2 * (T * cm - q)\<bar> \<le> T"
  shows "\<bar>2 * (2251799813685248 * cm - P)\<bar> \<le> 2251799813685248 + 70368744177664"
proof -
  note n1 = abs_twice_bounds[OF near1]
  note n2 = abs_twice_bounds[OF near2]
  have a: "S * (2 * (T * cm) - 2 * q) \<le> S * T"
    using n2(1) S(1) by (intro mult_left_mono) simp_all
  have b: "S * (- T) \<le> S * (2 * (T * cm) - 2 * q)"
    using n2(2) S(1) by (intro mult_left_mono) simp_all
  have c: "S * (2 * (T * cm) - 2 * q) = 2 * (2251799813685248 * cm) - 2 * (S * q)"
    by (simp add: ST[symmetric] algebra_simps)
  have d: "S * (- T) = - 2251799813685248" by (simp add: ST)
  have "2 * (2251799813685248 * cm) - 2 * P \<le> 2251799813685248 + 70368744177664"
    and "- (2251799813685248 + 70368744177664) \<le> 2 * (2251799813685248 * cm) - 2 * P"
    using n1 a b S(2) unfolding c d ST by linarith+
  then show ?thesis
    by (simp add: abs_le_iff algebra_simps)
qed

text \<open>
  A product of more than 53 bits is rounded twice: to a multiple of \<open>S\<close>, a power of two,
  and then to an integer, that is to a multiple of \<open>S * (2 * H) = 2 ^ 51\<close>.
\<close>

lemma round_product_shape:
  assumes "2 ^ 53 \<le> P" and "P < 2 ^ 99"
  shows "\<exists>S H. 0 < S \<and> S \<le> 70368744177664 \<and> 0 < H \<and> S * H = 1125899906842624 \<and>
           4503599627370496 * S \<le> P \<and> P < 9007199254740992 * S \<and>
           map_sum id py_round (to_double (P, - 51)) = Inr (rhe_div (rhe_div P S) (2 * H))"
proof -
  define l where "l = bitlen P"
  have Ppos: "0 < P" using assms(1) by (rule less_le_trans[rotated]) simp
  have "\<not> P < 2 ^ 53" using assms(1) by simp
  then have "\<not> l \<le> 53" unfolding l_def using Ppos by (simp add: bitlen_le_iff_power)
  then have l53: "53 < l" by simp
  have l99: "l \<le> 99" unfolding l_def using assms(2) by (simp add: bitlen_le_iff_power)
  define s where "s = nat (l - 53)"
  define t where "t = nat (104 - l)"
  define S :: int where "S = 2 ^ s"
  define H :: int where "H = 2 ^ (t - 1)"
  have st: "s + (t - 1) = 50" using l53 l99 by (simp add: s_def t_def)
  have t1: "t = Suc (t - 1)" using l99 by (simp add: t_def)
  have "S * H = 2 ^ 50" unfolding S_def H_def by (simp only: power_add[symmetric] st)
  then have SH: "S * H = 1125899906842624" by simp
  have T: "(2::int) ^ t = 2 * H" unfolding H_def by (subst t1) simp
  have s46: "s \<le> 46" using l99 by (simp add: s_def)
  have Spos: "0 < S" "1 \<le> S" by (simp_all add: S_def)
  have Hpos: "0 < H" by (simp add: H_def)
  have "S \<le> 2 ^ 46" unfolding S_def using s46 by (intro power_increasing) simp_all
  then have S46n: "S \<le> 70368744177664" by simp
  define q where "q = rhe_div P S"
  have near1: "\<bar>2 * (S * q - P)\<bar> \<le> S" unfolding q_def using Spos(1) by (rule rhe_div_near)
  note n1 = abs_twice_bounds[OF near1]
  have bb: "2 ^ nat (l - 1) \<le> P" "P < 2 ^ nat l"
    using bitlen_bounds[OF Ppos] by (simp_all add: l_def)
  have "nat (l - 1) = 52 + s" using l53 by (simp add: s_def)
  then have "2 ^ 52 * S \<le> P" using bb(1) by (simp add: S_def power_add)
  then have low52: "4503599627370496 * S \<le> P" by simp
  have "nat l = 53 + s" using l53 by (simp add: s_def)
  then have "P < 2 ^ 53 * S" using bb(2) by (simp add: S_def power_add)
  then have up53: "P < 9007199254740992 * S" by simp
  have Sq: "0 < S * q" using n1 low52 Spos by linarith
  then have qpos: "0 < q" using Spos(1) by (simp add: zero_less_mult_iff)
  have "q \<le> S * q" using qpos Spos(2) by (simp add: mult_le_cancel_right1)
  moreover have "S * q \<le> P + S" using n1 Spos(1) by linarith
  moreover have P99: "P < 633825300114114700748351602688" using assms(2) by simp
  ultimately have "q < 1267650600228229401496703205376" using S46n by linarith
  then have "q < 2 ^ 100" by simp
  then have bq: "bitlen \<bar>q\<bar> \<le> 100" using qpos by (simp add: bitlen_le_iff_power)
  have "map_sum id py_round (to_double (P, - 51)) = Inr (rhe_div q (2 * H))"
    using round_big[OF Ppos] l53 l99 bq
    by (simp add: l_def[symmetric] s_def[symmetric] S_def[symmetric] q_def[symmetric]
        t_def[symmetric] T)
  with Spos(1) S46n Hpos SH low52 up53 show ?thesis unfolding q_def by blast
qed

lemma round_product_near:
  assumes "0 \<le> P" and "P < 2 ^ 99"
  shows "\<exists>cm. map_sum id py_round (to_double (P, - 51)) = Inr cm \<and>
              \<bar>2 * (2251799813685248 * cm - P)\<bar> \<le> 2251799813685248 + 70368744177664"
proof (cases "P < 2 ^ 53")
  case True
  then have "bitlen \<bar>P\<bar> \<le> 53" using assms(1) by (simp add: bitlen_le_iff_power)
  note small = round_small[OF this]
  have "\<bar>2 * (2 ^ 51 * rhe_div P (2 ^ 51) - P)\<bar> \<le> 2 ^ 51"
    by (rule rhe_div_near) simp
  then have "\<bar>2 * (2251799813685248 * rhe_div P (2 ^ 51) - P)\<bar>
               \<le> 2251799813685248 + 70368744177664"
    by simp
  with small show ?thesis by blast
next
  case False
  then have "2 ^ 53 \<le> P" by simp
  from round_product_shape[OF this assms(2)] obtain S H
    where S: "0 < S" "S \<le> 70368744177664" and H: "0 < H" and SH: "S * H = 1125899906842624"
      and r: "map_sum id py_round (to_double (P, - 51)) = Inr (rhe_div (rhe_div P S) (2 * H))"
    by blast
  have "S * (2 * H) = 2 * (S * H)" by simp
  then have ST: "S * (2 * H) = 2251799813685248" by (simp only: SH)
  have near1: "\<bar>2 * (S * rhe_div P S - P)\<bar> \<le> S" using S(1) by (rule rhe_div_near)
  have near2: "\<bar>2 * (2 * H * rhe_div (rhe_div P S) (2 * H) - rhe_div P S)\<bar> \<le> 2 * H"
    by (rule rhe_div_near) (use H in simp)
  from two_roundings_near[OF ST S near1 near2] r show ?thesis by blast
qed

lemma inches_to_cm_product:
  assumes "0 \<le> n" and "n \<le> 110816919964825"
  shows "inches_to_cm n =
           map_sum id py_round (to_double (n * 5719571526760530, - 51))"
proof -
  have "n < 2 ^ 53" using assms(2) by simp
  from float_of_int_small[OF assms(1) this] show ?thesis
    by (cases "to_double (n * 5719571526760530, - 51)")
       (simp_all add: inches_to_cm_def float_mul_def d2_54_def)
qed

lemma product_bounds:
  fixes n :: int
  assumes "0 \<le> n" and "n \<le> 110816919964825"
  shows "0 \<le> n * 5719571526760530" and "n * 5719571526760530 < 2 ^ 99"
proof -
  show "0 \<le> n * 5719571526760530" using assms(1) by simp
  have "n * 5719571526760530 \<le> 110816919964825 * 5719571526760530" using assms(2) by simp
  also have "\<dots> < 2 ^ 99" by simp
  finally show "n * 5719571526760530 < 2 ^ 99" .
qed

lemma inches_to_cm_near:
  assumes "0 \<le> n" and "n \<le> 110816919964825"
  shows "\<exists>cm. inches_to_cm n = Inr cm \<and> \<bar>50 * cm - 127 * n\<bar> \<le> 25"
proof -
  define P where "P = n * 5719571526760530"
  have b: "50 * P = 285978576338026496 * n + 4 * n" by (simp add: P_def)
  have "0 \<le> P" and "P < 2 ^ 99" unfolding P_def using assms by (rule product_bounds)+
  from round_product_near[OF this] obtain cm
    where cm: "map_sum id py_round (to_double (P, - 51)) = Inr cm"
      and a: "\<bar>2 * (2251799813685248 * cm - P)\<bar> \<le> 2251799813685248 + 70368744177664"
    by blast
  have "inches_to_cm n = Inr cm"
    using inches_to_cm_product[OF assms] cm by (simp add: P_def)
  moreover have "\<bar>50 * cm - 127 * n\<bar> \<le> 25"
  proof -
    define d where "d = 50 * cm - 127 * n"
    note c = assms(2)
    note a' = abs_twice_bounds[OF a]
    have e: "2251799813685248 * d = 50 * (2251799813685248 * cm) - 50 * P + 4 * n"
      unfolding b d_def by (simp add: algebra_simps)
    from a' e c assms(1) have "2251799813685248 * d < 2251799813685248 * 26" by linarith
    then have "d < 26" by simp
    moreover from a' e c assms(1) have "2251799813685248 * (- 26) < 2251799813685248 * d"
      by linarith
    then have "- 26 < d" by simp
    ultimately show ?thesis unfolding d_def[symmetric] by simp
  qed
  ultimately show ?thesis by blast
qed

text \<open>Off a tie the nearest integer is unique.\<close>

lemma off_tie:
  fixes d :: int
  assumes "\<bar>d\<bar> \<le> 25" and "d \<noteq> 25 \<and> d \<noteq> - 25"
  shows "d \<le> 24" and "- 24 \<le> d"
  using assms by linarith+

lemma nearest_unique:
  fixes cm n :: int
  assumes "\<bar>50 * cm - 127 * n\<bar> \<le> 25" and "\<And>j. n \<noteq> 50 * j + 25"
  shows "cm = rhe_div (127 * n) 50"
proof -
  define r where "r = rhe_div (127 * n) 50"
  have off: "50 * c - 127 * n \<noteq> 25 \<and> 50 * c - 127 * n \<noteq> - 25" for c
  proof (intro conjI notI)
    assume "50 * c - 127 * n = 25"
    then have "n = 50 * (13 * c - 33 * n - 7) + 25" by simp
    with assms(2) show False by blast
  next
    assume "50 * c - 127 * n = - 25"
    then have "n = 50 * (13 * c - 33 * n + 6) + 25" by simp
    with assms(2) show False by blast
  qed
  have "\<bar>2 * (50 * r - 127 * n)\<bar> \<le> 50" unfolding r_def by (rule rhe_div_near) simp
  then have "\<bar>50 * r - 127 * n\<bar> \<le> 25" by simp
  then have r: "50 * r - 127 * n \<le> 24" "- 24 \<le> 50 * r - 127 * n"
    using off[of r] by (rule off_tie)+
  have c: "50 * cm - 127 * n \<le> 24" "- 24 \<le> 50 * cm - 127 * n"
    using assms(1) off[of cm] by (rule off_tie)+
  from r c have "cm - r < 1" "- 1 < cm - r" by linarith+
  then have "cm = r" by simp
  then show ?thesis by (simp add: r_def)
qed

text \<open>
  On a tie, \<open>n = 50 * j + 25\<close>, the product is just above the midpoint and the first
  rounding lands on it.
\<close>

lemma inches_to_cm_tie:
  assumes "0 \<le> j" and "50 * j + 25 \<le> 110816919964825"
  shows "inches_to_cm (50 * j + 25) = Inr (rhe_div (127 * (50 * j + 25)) 50)"
proof -
  define n where "n = 50 * j + 25"
  define k where "k = 127 * j + 63"
  define P where "P = n * 5719571526760530"
  have n: "0 \<le> n" "n \<le> 110816919964825" using assms by (simp_all add: n_def)
  have Pj: "P = 285978576338026500 * j + 142989288169013250" by (simp add: P_def n_def)
  have "2 ^ 53 \<le> P" using assms(1) by (simp add: Pj)
  moreover have "P < 2 ^ 99" unfolding P_def using n by (rule product_bounds)
  ultimately obtain S H
    where S: "0 < S" and H: "0 < H" and SH: "S * H = 1125899906842624"
      and up: "P < 9007199254740992 * S"
      and r: "map_sum id py_round (to_double (P, - 51)) = Inr (rhe_div (rhe_div P S) (2 * H))"
    using round_product_shape by blast
  have "S * (H * (2 * k + 1)) = 1125899906842624 * (2 * k + 1)"
    by (simp only: mult.assoc[symmetric] SH)
  then have "P = S * (H * (2 * k + 1)) + (4 * j + 2)"
    by (simp add: Pj k_def)
  moreover have "2 * (4 * j + 2) < S"
  proof -
    have "9007199254740992 * (2 * (4 * j + 2)) \<le> P" using assms(1) by (simp add: Pj)
    with up have "9007199254740992 * (2 * (4 * j + 2)) < 9007199254740992 * S" by simp
    then show ?thesis by simp
  qed
  moreover have "0 \<le> 4 * j + 2" using assms(1) by simp
  ultimately have "rhe_div P S = H * (2 * k + 1)" by (simp only: rhe_div_low)
  then have "rhe_div P S = 2 * H * k + H" by (simp add: algebra_simps)
  then have "rhe_div (rhe_div P S) (2 * H) = (if even k then k else k + 1)"
    using rhe_div_tie[OF H] by simp
  moreover have "127 * n = 2 * 25 * k + 25" by (simp add: n_def k_def)
  then have "rhe_div (127 * n) 50 = (if even k then k else k + 1)"
    using rhe_div_tie[of 25 k] by simp
  ultimately have "map_sum id py_round (to_double (P, - 51)) = Inr (rhe_div (127 * n) 50)"
    using r by simp
  then show ?thesis
    using inches_to_cm_product[OF n] by (simp add: P_def n_def)
qed

text \<open>
  Up to 110816919964825 inches, where the product stays below \<open>2 ^ 99\<close>, the conversion is
  exact: the nearest integer to \<open>2.54 * n = 127 * n / 50\<close>, a tie going to the even one.
\<close>

lemma inches_to_cm_exact:
  assumes "0 \<le> n" and "n \<le> 110816919964825"
  shows "inches_to_cm n = Inr (rhe_div (127 * n) 50)"
proof (cases "\<exists>j. n = 50 * j + 25")
  case True
  then obtain j where n: "n = 50 * j + 25" by blast
  have "0 \<le> j" using assms(1) unfolding n by linarith
  moreover have "50 * j + 25 \<le> 110816919964825" using assms(2) by (simp only: n[symmetric])
  ultimately show ?thesis unfolding n by (rule inches_to_cm_tie)
next
  case False
  then have off: "n \<noteq> 50 * j + 25" for j by blast
  from inches_to_cm_near[OF assms] obtain cm
    where "inches_to_cm n = Inr cm" and "\<bar>50 * cm - 127 * n\<bar> \<le> 25" by blast
  with nearest_unique[OF _ off] show ?thesis by simp
qed

lemma inches_to_cm_gap:
  "list_all (\<lambda>n. inches_to_cm n = Inr (rhe_div (127 * n) 50))
     [110816919964826 .. 110816919964837]"
  by code_simp

lemma inches_to_cm_rounds:
  assumes "0 \<le> n" and "n < 110816919964838"
  shows "inches_to_cm n = Inr (rhe_div (127 * n) 50)"
proof (cases "n \<le> 110816919964825")
  case True
  with assms(1) show ?thesis by (rule inches_to_cm_exact)
next
  case False
  with assms(2) have "110816919964826 \<le> n \<and> n \<le> 110816919964837" by simp
  then have "n \<in> set [110816919964826 .. 110816919964837]"
    by (simp only: set_upto atLeastAtMost_iff)
  with inches_to_cm_gap show ?thesis by (simp only: list_all_iff)
qed

lemma contains_set:
  "contains sub s \<Longrightarrow> set sub \<subseteq> set s"
proof (induction s)
  case Nil
  then show ?case by simp
next
  case (Cons x xs)
  from Cons.prems have "prefix sub (x # xs) \<or> contains sub xs" by simp
  then show ?case
  proof
    assume "prefix sub (x # xs)"
    then show ?thesis by (rule set_mono_prefix)
  next
    assume "contains sub xs"
    then have "set sub \<subseteq> set xs" by (rule Cons.IH)
    then show ?thesis by auto
  qed
qed

lemma split_on_no_sep:
  "sep \<notin> set a \<Longrightarrow> split_on cur sep a = [cur @ a]"
  by (induction a arbitrary: cur) auto

lemma split_on_one_sep:
  "sep \<notin> set a \<Longrightarrow> sep \<notin> set b \<Longrightarrow> split_on cur sep (a @ sep # b) = [cur @ a, b]"
  by (induction a arbitrary: cur) (auto simp add: split_on_no_sep)

lemma scan_digits_fold:
  "list_all is_digit s \<Longrightarrow> s \<noteq> [] \<or> prev \<Longrightarrow>
     scan_digits prev acc s = Some (foldl (\<lambda>acc c. acc * 10 + digit_val c) acc s)"
  by (induction s arbitrary: prev acc) simp_all

lemma not_digit_chars:
  "\<not> is_digit CHR '' ''" "\<not> is_digit (CHR 0x27)" "\<not> is_digit (CHR 0x22)"
  "\<not> is_digit CHR ''-''" "\<not> is_digit CHR ''+''"
  by (simp_all add: is_digit_def)

lemma digit_not_space:
  "is_digit c \<Longrightarrow> \<not> int_space c"
  by (auto simp add: is_digit_def int_space_def Let_def)

lemma digits_free:
  assumes "list_all is_digit s" and "\<not> is_digit c"
  shows "c \<notin> set s" and "filter (\<lambda>x. x \<noteq> c) s = s"
proof -
  show "c \<notin> set s" using assms by (auto simp add: list_all_iff)
  then show "filter (\<lambda>x. x \<noteq> c) s = s" by (auto simp add: filter_id_conv)
qed

lemma py_int_digits:
  assumes d: "list_all is_digit s" and ne: "s \<noteq> []" and len: "length s \<le> max_str_digits"
  shows "py_int s = Some (decimal s)"
proof -
  from ne obtain c cs where s: "s = c # cs" by (cases s) auto
  have c: "is_digit c" using d by (simp add: s)
  have "is_digit (last s)" using d ne by (simp add: list_all_iff)
  then have l: "\<not> int_space (last s)" by (rule digit_not_space)
  have "dropWhile int_space s = s" using c by (simp add: s digit_not_space)
  moreover have "dropWhile int_space (rev s) = rev s"
    using l ne by (cases "rev s") (simp_all add: last_rev hd_rev[symmetric])
  ultimately have a: "rev (dropWhile int_space (rev (dropWhile int_space s))) = c # cs"
    by (simp add: s)
  have f: "filter is_digit (c # cs) = c # cs"
    using d unfolding s by (simp add: filter_id_conv list_all_iff)
  have sg: "c \<noteq> CHR ''-''" "c \<noteq> CHR ''+''" using c not_digit_chars by auto
  have "scan_digits False 0 (c # cs) = Some (decimal (c # cs))"
    unfolding decimal_def using d by (intro scan_digits_fold) (simp_all add: s)
  then show ?thesis
    unfolding py_int_def a list.case f using len sg by (simp add: s)
qed

lemma decimal_nonneg:
  "list_all is_digit s \<Longrightarrow> 0 \<le> decimal s"
proof -
  have "list_all is_digit s \<Longrightarrow> 0 \<le> acc \<Longrightarrow>
          0 \<le> foldl (\<lambda>acc c. acc * 10 + digit_val c) acc s" for acc
    by (induction s arbitrary: acc) (simp_all add: is_digit_def digit_val_def Let_def)
  then show "list_all is_digit s \<Longrightarrow> 0 \<le> decimal s" by (simp add: decimal_def)
qed

text \<open>A text that, its blanks aside, is \<^verbatim>\<open>F'I"\<close> for two runs of digits.\<close>

lemma feet_inches_text:
  assumes F: "list_all is_digit F" "F \<noteq> []" "length F \<le> max_str_digits"
    and I: "list_all is_digit I" "I \<noteq> []" "length I \<le> max_str_digits"
    and h1: "remove_char CHR '' '' h = F @ [CHR 0x27] @ I @ [CHR 0x22]"
  shows "parse_height_to_cm (Some h) =
           map_sum id Some (inches_to_cm (12 * decimal F + decimal I))"
proof -
  have ne: "h \<noteq> []" using h1 by (auto simp add: remove_char_def)
  have "CHR ''-'' \<notin> set (remove_char CHR '' '' h)"
    using digits_free(1)[OF F(1) not_digit_chars(4)] digits_free(1)[OF I(1) not_digit_chars(4)]
    by (simp add: h1)
  then have "CHR ''-'' \<notin> set h" by (simp add: remove_char_def)
  then have nc: "\<not> contains ''--'' h" using contains_set[of "''--''" h] by auto
  have h2: "remove_char (CHR 0x22) (F @ [CHR 0x27] @ I @ [CHR 0x22]) = F @ CHR 0x27 # I"
    unfolding remove_char_def
    by (simp add: digits_free(2)[OF F(1) not_digit_chars(3)]
        digits_free(2)[OF I(1) not_digit_chars(3)])
  have parts: "split_on [] (CHR 0x27) (F @ CHR 0x27 # I) = [F, I]"
    using split_on_one_sep[OF digits_free(1)[OF F(1) not_digit_chars(2)]
        digits_free(1)[OF I(1) not_digit_chars(2)], of "[]"] by simp
  have fi: "feet_inches (F @ [CHR 0x27] @ I @ [CHR 0x22]) [F, I] = Some (decimal F, decimal I)"
    by (simp add: feet_inches_def py_int_digits[OF F] py_int_digits[OF I] I(2))
  show ?thesis
    unfolding parse_height_to_cm_def option.case Let_def h1 h2 parts fi
    using ne nc by (cases "inches_to_cm (decimal F * 12 + decimal I)") (simp_all add: mult.commute)
qed

text \<open>
  C5, as amended.  For a height text that, its blanks aside, is \<^verbatim>\<open>F'I"\<close> with two
  non-empty runs of decimal digits, of at most 4300 digits each and with \<open>12 * F + I\<close>
  total inches below 110816919964838, the result is the total times 2.54 = 127/50
  rounded to the nearest integer, a tie going to the even one; \<^verbatim>\<open>5' 11"\<close> gives 180 and
  the placeholder \<^verbatim>\<open>--\<close> gives \<^verbatim>\<open>None\<close>.
\<close>

theorem height_feet_inches:
  "parse_height_to_cm (Some (''5' 11'' @ [CHR 0x22])) = Inr (Some 180) \<and>
   parse_height_to_cm (Some ''--'') = Inr None \<and>
   (\<forall>h F I. list_all is_digit F \<and> F \<noteq> [] \<and> length F \<le> max_str_digits \<and>
          list_all is_digit I \<and> I \<noteq> [] \<and> length I \<le> max_str_digits \<and>
          remove_char CHR '' '' h = F @ [CHR 0x27] @ I @ [CHR 0x22] \<and>
          12 * decimal F + decimal I < 110816919964838 \<longrightarrow>
      (\<exists>cm. parse_height_to_cm (Some h) = Inr (Some cm) \<and>
            cm = rhe_div (127 * (12 * decimal F + decimal I)) 50 \<and>
            \<bar>100 * cm - 254 * (12 * decimal F + decimal I)\<bar> \<le> 50))"
proof (intro conjI allI impI)
  show "parse_height_to_cm (Some (''5' 11'' @ [CHR 0x22])) = Inr (Some 180)" by code_simp
  show "parse_height_to_cm (Some ''--'') = Inr None" by code_simp
next
  fix h F I
  assume a: "list_all is_digit F \<and> F \<noteq> [] \<and> length F \<le> max_str_digits \<and>
          list_all is_digit I \<and> I \<noteq> [] \<and> length I \<le> max_str_digits \<and>
          remove_char CHR '' '' h = F @ [CHR 0x27] @ I @ [CHR 0x22] \<and>
          12 * decimal F + decimal I < 110816919964838"
  define n where "n = 12 * decimal F + decimal I"
  have F: "list_all is_digit F" "F \<noteq> []" "length F \<le> max_str_digits"
    and I: "list_all is_digit I" "I \<noteq> []" "length I \<le> max_str_digits"
    and h: "remove_char CHR '' '' h = F @ [CHR 0x27] @ I @ [CHR 0x22]"
    and n: "n < 110816919964838"
    using a by (simp_all add: n_def)
  have "0 \<le> n" using decimal_nonneg[OF F(1)] decimal_nonneg[OF I(1)] by (simp add: n_def)
  note c = inches_to_cm_rounds[OF this n]
  have "parse_height_to_cm (Some h) = map_sum id Some (inches_to_cm n)"
    unfolding n_def by (rule feet_inches_text[OF F I h])
  then have r: "parse_height_to_cm (Some h) = Inr (Some (rhe_div (127 * n) 50))"
    by (simp only: c map_sum.simps)
  have "\<bar>2 * (50 * rhe_div (127 * n) 50 - 127 * n)\<bar> \<le> 50" by (rule rhe_div_near) simp
  then have "\<bar>100 * rhe_div (127 * n) 50 - 254 * n\<bar> \<le> 50" by simp
  with r show "\<exists>cm. parse_height_to_cm (Some h) = Inr (Some cm) \<and>
            cm = rhe_div (127 * (12 * decimal F + decimal I)) 50 \<and>
            \<bar>100 * cm - 254 * (12 * decimal F + decimal I)\<bar> \<le> 50"
    unfolding n_def by blast
qed

theorem height_feet_inches_witness:
  "parse_height_to_cm (Some (''6'' @ [CHR 0x27, CHR '' ''] @ ''3'' @ [CHR 0x22])) =
     Inr (Some 190)"
proof -
  have d: "decimal ''6'' = 6" "decimal ''3'' = 3" by (simp_all add: decimal_def digit_val_def)
  have r: "rhe_div 9525 50 = 190" by (simp add: rhe_div_def)
  have "list_all is_digit ''6'' \<and> ''6'' \<noteq> [] \<and> length ''6'' \<le> max_str_digits \<and>
          list_all is_digit ''3'' \<and> ''3'' \<noteq> [] \<and> length ''3'' \<le> max_str_digits \<and>
          remove_char CHR '' '' (''6'' @ [CHR 0x27, CHR '' ''] @ ''3'' @ [CHR 0x22]) =
            ''6'' @ [CHR 0x27] @ ''3'' @ [CHR 0x22] \<and>
          12 * decimal ''6'' + decimal ''3'' < 110816919964838"
    by (simp add: is_digit_def max_str_digits_def remove_char_def d)
  with height_feet_inches[THEN conjunct2, THEN conjunct2, THEN spec, THEN spec, THEN spec,
      THEN mp, of "''6''" "''3''" "''6'' @ [CHR 0x27, CHR '' ''] @ ''3'' @ [CHR 0x22]"]
  show ?thesis by (auto simp add: d r)
qed

text \<open>
  The claim as stated fails: at 110816919964838 inches the double-precision product is
  rounded below the half, and the result is one less than the nearest integer to
  281474976710688.52.
\<close>

theorem height_float_counterexample:
  "parse_height_to_cm (Some (''9234743330403' 2'' @ [CHR 0x22])) = Inr (Some 281474976710688) \<and>
   12 * 9234743330403 + 2 = (110816919964838 :: int) \<and>
   \<not> \<bar>(100 :: int) * 281474976710688 - 254 * 110816919964838\<bar> \<le> 50"
  by code_simp

section \<open>The normalizer, word by word\<close>

text \<open>Which rests a literal, and a literal after \<^verbatim>\<open>.*\<close>, can leave.\<close>

lemma str_rest_ci_iff:
  "str_rest True l s = Some r \<longleftrightarrow> (\<exists>p. s = p @ r \<and> map ascii_lower p = map ascii_lower l)"
  using str_rest_ci_Some str_rest_ci_match by blast

lemma set_rmatch_Str:
  "(r, g') \<in> set (rmatch True n (Str l) (t, g)) \<longleftrightarrow>
     g' = g \<and> (\<exists>p. t = p @ r \<and> map ascii_lower p = map ascii_lower l)"
proof (cases "str_rest True l t")
  case None
  then have "\<not> (\<exists>p. t = p @ r \<and> map ascii_lower p = map ascii_lower l)"
    using str_rest_ci_match[of _ l r] by auto
  with None show ?thesis by simp
next
  case (Some r')
  then have "r' = r \<longleftrightarrow> (\<exists>p. t = p @ r \<and> map ascii_lower p = map ascii_lower l)"
    using str_rest_ci_iff[of l t r] by auto
  with Some show ?thesis by auto
qed

lemma star_rests_all:
  "\<forall>c\<in>set s. P c \<Longrightarrow> set (star_rests P s) = {r. suffix r s}"
  by (induction s) (auto simp add: suffix_Cons)

lemma set_rmatch_Star_Dot:
  assumes "newline \<notin> set t"
  shows "(r, g') \<in> set (rmatch True n (Star Dot) (t, g)) \<longleftrightarrow> g' = g \<and> suffix r t"
proof -
  have "set (star_rests (cs_match True Dot) t) = {r. suffix r t}"
    by (rule star_rests_all) (use assms in auto)
  then show ?thesis by (auto simp del: cs_match.simps)
qed

lemma set_rmatch_Seq:
  "x \<in> set (rmatch ic n (Seq a b) st) \<longleftrightarrow> (\<exists>m\<in>set (rmatch ic n a st). x \<in> set (rmatch ic n b m))"
  by simp

lemma ends_Str:
  "([], g') \<in> set (rmatch True n (Str l) (t, g)) \<longleftrightarrow>
     g' = g \<and> map ascii_lower t = map ascii_lower l"
  by (simp only: set_rmatch_Str append_Nil2) blast

lemma ends_Str_Dot:
  assumes "newline \<notin> set t"
  shows "([], g') \<in> set (rmatch True n (Seq (Str a) (Star Dot)) (t, g)) \<longleftrightarrow>
           g' = g \<and> (\<exists>p u. t = p @ u \<and> map ascii_lower p = map ascii_lower a)"
proof
  assume "([], g') \<in> set (rmatch True n (Seq (Str a) (Star Dot)) (t, g))"
  then obtain m where m: "m \<in> set (rmatch True n (Str a) (t, g))"
      and e: "([], g') \<in> set (rmatch True n (Star Dot) m)"
    unfolding set_rmatch_Seq by blast
  obtain u h where mu: "m = (u, h)" by (cases m)
  from m[unfolded mu set_rmatch_Str] obtain p where "h = g" "t = p @ u"
      "map ascii_lower p = map ascii_lower a" by blast
  moreover from this assms have "newline \<notin> set u" by simp
  from e[unfolded mu set_rmatch_Star_Dot[OF this]] have "g' = h" by blast
  ultimately show "g' = g \<and> (\<exists>p u. t = p @ u \<and> map ascii_lower p = map ascii_lower a)"
    by blast
next
  assume "g' = g \<and> (\<exists>p u. t = p @ u \<and> map ascii_lower p = map ascii_lower a)"
  then obtain p u where g: "g' = g" and t: "t = p @ u"
      and p: "map ascii_lower p = map ascii_lower a" by blast
  have "(u, g) \<in> set (rmatch True n (Str a) (t, g))"
    unfolding set_rmatch_Str using t p by blast
  moreover have "newline \<notin> set u" using assms t by simp
  then have "([], g) \<in> set (rmatch True n (Star Dot) (u, g))"
    using set_rmatch_Star_Dot[of u "[]" g n g] by (simp del: rmatch.simps)
  ultimately show "([], g') \<in> set (rmatch True n (Seq (Str a) (Star Dot)) (t, g))"
    unfolding set_rmatch_Seq g by blast
qed

lemma ends_Str_Dot_Str:
  assumes "newline \<notin> set t"
  shows "([], g') \<in> set (rmatch True n (Seq (Str a) (Seq (Star Dot) (Str b))) (t, g)) \<longleftrightarrow>
           g' = g \<and> (\<exists>p u r. t = p @ u @ r \<and> map ascii_lower p = map ascii_lower a \<and>
                              map ascii_lower r = map ascii_lower b)"
proof
  assume "([], g') \<in> set (rmatch True n (Seq (Str a) (Seq (Star Dot) (Str b))) (t, g))"
  then obtain m m' where m: "m \<in> set (rmatch True n (Str a) (t, g))"
      and m': "m' \<in> set (rmatch True n (Star Dot) m)"
      and e: "([], g') \<in> set (rmatch True n (Str b) m')"
    unfolding set_rmatch_Seq by blast
  obtain v h where mv: "m = (v, h)" by (cases m)
  obtain r h' where mr: "m' = (r, h')" by (cases m')
  from m[unfolded mv set_rmatch_Str] obtain p where h: "h = g" and t: "t = p @ v"
      and p: "map ascii_lower p = map ascii_lower a" by blast
  from t assms have "newline \<notin> set v" by simp
  from m'[unfolded mv mr set_rmatch_Star_Dot[OF this]] have h': "h' = h" and "suffix r v"
    by blast+
  then obtain u where v: "v = u @ r" by (auto simp add: suffix_def)
  from e[unfolded mr ends_Str] have "g' = h'" "map ascii_lower r = map ascii_lower b" by blast+
  with h h' t v p
  show "g' = g \<and> (\<exists>p u r. t = p @ u @ r \<and> map ascii_lower p = map ascii_lower a \<and>
                              map ascii_lower r = map ascii_lower b)"
    by blast
next
  assume "g' = g \<and> (\<exists>p u r. t = p @ u @ r \<and> map ascii_lower p = map ascii_lower a \<and>
                              map ascii_lower r = map ascii_lower b)"
  then obtain p u r where g: "g' = g" and t: "t = p @ u @ r"
      and p: "map ascii_lower p = map ascii_lower a"
      and r: "map ascii_lower r = map ascii_lower b" by blast
  have "(u @ r, g) \<in> set (rmatch True n (Str a) (t, g))"
    unfolding set_rmatch_Str using t p by blast
  moreover have "newline \<notin> set (u @ r)" using assms t by simp
  then have "(r, g) \<in> set (rmatch True n (Star Dot) (u @ r, g))"
    using set_rmatch_Star_Dot[of "u @ r" r g n g] by (simp add: suffix_def del: rmatch.simps)
  moreover have "([], g) \<in> set (rmatch True n (Str b) (r, g))"
    unfolding ends_Str using r by simp
  ultimately show "([], g') \<in> set (rmatch True n (Seq (Str a) (Seq (Star Dot) (Str b))) (t, g))"
    unfolding set_rmatch_Seq[of _ _ _ "Str a"] set_rmatch_Seq[of _ _ _ "Star Dot"] g by blast
qed


lemma ci_prefix_conv:
  "(\<exists>p u. t = p @ u \<and> map f p = map f a) \<longleftrightarrow> prefix (map f a) (map f t)"
proof
  assume "\<exists>p u. t = p @ u \<and> map f p = map f a"
  then obtain p u where "t = p @ u" "map f p = map f a" by blast
  then have "map f t = map f a @ map f u" by simp
  then show "prefix (map f a) (map f t)" by (rule prefixI)
next
  assume "prefix (map f a) (map f t)"
  then obtain z where "map f t = map f a @ z" by (auto simp add: prefix_def)
  then show "\<exists>p u. t = p @ u \<and> map f p = map f a"
    by (auto simp add: map_eq_append_conv)
qed

lemma ci_mid_conv:
  "(\<exists>p u r. t = p @ u @ r \<and> map f p = map f a \<and> map f r = map f b) \<longleftrightarrow>
     prefix (map f a) (map f t) \<and> suffix (map f b) (drop (length a) (map f t))"
proof
  assume "\<exists>p u r. t = p @ u @ r \<and> map f p = map f a \<and> map f r = map f b"
  then obtain p u r where t: "t = p @ u @ r" and p: "map f p = map f a"
      and r: "map f r = map f b" by blast
  have e: "map f t = map f a @ map f u @ map f b" by (simp add: t p r)
  have "length (map f a) = length a" by simp
  then have "drop (length a) (map f t) = map f u @ map f b" unfolding e by (metis append_eq_conv_conj)
  moreover have "prefix (map f a) (map f t)" using e by (rule prefixI)
  ultimately show "prefix (map f a) (map f t) \<and> suffix (map f b) (drop (length a) (map f t))"
    by (simp add: suffix_def)
next
  assume a: "prefix (map f a) (map f t) \<and> suffix (map f b) (drop (length a) (map f t))"
  then obtain z where z: "map f t = map f a @ z" by (auto simp add: prefix_def)
  then obtain p v where t: "t = p @ v" and p: "map f p = map f a" and v: "map f v = z"
    by (auto simp add: map_eq_append_conv)
  have "length (map f a) = length a" by simp
  then have "drop (length a) (map f t) = z" unfolding z by (metis append_eq_conv_conj)
  with a obtain y where "z = y @ map f b" by (auto simp add: suffix_def)
  with v obtain u r where "v = u @ r" "map f r = map f b"
    by (auto simp add: map_eq_append_conv)
  with t p show "\<exists>p u r. t = p @ u @ r \<and> map f p = map f a \<and> map f r = map f b" by blast
qed

lemma suffix_literals:
  "map ascii_lower ''Interim'' = ''interim''"
  "map ascii_lower ''Catch Weight'' = ''catch weight''"
  "map ascii_lower ''The Ultimate Fighter'' = ''the ultimate fighter''"
  "map ascii_lower ''Final'' = ''final''"
  by code_simp+

lemma suffix_literal_lengths:
  "length ''Interim'' = 7" "length ''The Ultimate Fighter'' = 20" "length ''Tournament'' = 10"
  by simp_all

text \<open>
  The alternatives of the pattern match a text without a newline, up to its end, exactly
  when the text is a bout-type suffix.
\<close>

lemma bout_alts_ends:
  assumes "newline \<notin> set t"
  shows "([], g') \<in> set (rmatch True n bout_alts (t, g)) \<longleftrightarrow> g' = g \<and> is_bout_suffix t"
proof -
  have "([], g') \<in> set (rmatch True n bout_alts (t, g)) \<longleftrightarrow>
          g' = g \<and>
          (map ascii_lower t = map ascii_lower ''Bout'' \<or>
           map ascii_lower t = map ascii_lower ''Title Bout'' \<or>
           (prefix (map ascii_lower ''Interim'') (map ascii_lower t) \<and>
            suffix (map ascii_lower ''Title Bout'') (drop (length ''Interim'') (map ascii_lower t))) \<or>
           prefix (map ascii_lower ''Catch Weight'') (map ascii_lower t) \<or>
           (prefix (map ascii_lower ''The Ultimate Fighter'') (map ascii_lower t) \<and>
            suffix (map ascii_lower ''Final'')
              (drop (length ''The Ultimate Fighter'') (map ascii_lower t))) \<or>
           (prefix (map ascii_lower ''Tournament'') (map ascii_lower t) \<and>
            suffix (map ascii_lower ''Final'') (drop (length ''Tournament'') (map ascii_lower t))))"
    unfolding bout_alts_def rmatch.simps(4) set_append Un_iff ends_Str
      ends_Str_Dot[OF assms] ends_Str_Dot_Str[OF assms] ci_prefix_conv ci_mid_conv
    by blast
  then show ?thesis
    unfolding is_bout_suffix_def Let_def lower_literals suffix_literals suffix_literal_lengths .
qed


lemma isspace_newline: "isspace newline"
  by (simp add: isspace_def newline_def)

lemma join_Cons2:
  "py_join '' '' (w # v # vs) = w @ CHR '' '' # py_join '' '' (v # vs)"
  by simp

lemma join_no_newline:
  "tokens_ok ws \<Longrightarrow> newline \<notin> set (py_join '' '' ws)"
proof (induction ws rule: induct_list012)
  case 1
  then show ?case by simp
next
  case (2 w)
  then show ?case using isspace_newline by (auto simp add: spacefree_def list_all_iff)
next
  case (3 w v vs)
  have "newline \<noteq> CHR '' ''" by (simp add: newline_def)
  moreover have "newline \<notin> set w"
    using 3(3) isspace_newline by (auto simp add: spacefree_def list_all_iff)
  moreover have "newline \<notin> set (py_join '' '' (v # vs))" using 3 by simp
  ultimately show ?case unfolding join_Cons2 by simp
qed

text \<open>
  At the blank before a word, the suffix pattern matches exactly when the words from
  there on are a bout-type suffix, and it then matches up to the end of the text.
\<close>

lemma match_at_boundary:
  assumes "tokens_ok ws" and "ws \<noteq> []"
  shows "match_at True n bout_suffix_rx (CHR '' '' # py_join '' '' ws) =
           (if is_bout_suffix (py_join '' '' ws) then Some ([], Some (py_join '' '' ws)) else None)"
proof -
  define t where "t = py_join '' '' ws"
  define L where "L = filter (\<lambda>st. fst st = [] \<or> fst st = [newline]) (rmatch True n bout_alts (t, None))"
  have nl: "newline \<notin> set t" unfolding t_def using assms(1) by (rule join_no_newline)
  have hd: "t = [] \<or> \<not> isspace (hd t)"
    using join_head[OF assms] by (auto simp add: t_def)
  have m: "match_at True n bout_suffix_rx (CHR '' '' # t) =
             (case L of [] \<Rightarrow> None
              | st # _ \<Rightarrow> Some (fst st, Some (take (length t - length (fst st)) t)))"
    unfolding L_def by (rule match_at_suffix_space) (simp, rule hd)
  have inL: "fst st = [] \<and> is_bout_suffix t" if "st \<in> set L" for st
  proof -
    from that have st: "st \<in> set (rmatch True n bout_alts (t, None))"
        and e: "fst st = [] \<or> fst st = [newline]"
      by (simp_all add: L_def)
    from rmatch_suffix[OF st] have "suffix (fst st) t" by simp
    then have "set (fst st) \<subseteq> set t" by (rule set_mono_suffix)
    with nl e have f: "fst st = []" by auto
    then have "([], snd st) \<in> set (rmatch True n bout_alts (t, None))"
      using st by (metis prod.collapse)
    with bout_alts_ends[OF nl] f show ?thesis by blast
  qed
  show ?thesis
  proof (cases "is_bout_suffix t")
    case True
    with bout_alts_ends[OF nl, of None n None]
    have "([], None) \<in> set (rmatch True n bout_alts (t, None))" by simp
    then have "([], None) \<in> set L" by (simp add: L_def)
    then obtain st rest where L: "L = st # rest" by (cases L) auto
    then have "st \<in> set L" by simp
    from inL[OF this] have "fst st = []" by simp
    with m L True show ?thesis by (simp add: t_def)
  next
    case False
    have "L = []"
    proof (cases L)
      case (Cons st rest)
      then have "st \<in> set L" by simp
      from inL[OF this] False show ?thesis by simp
    qed simp
    with m False show ?thesis by (simp add: t_def)
  qed
qed

lemma cut_suffix_Cons: "\<exists>r. cut_suffix (w # ws) = w # r"
  by simp

lemma cut_suffix_subset: "set (cut_suffix ws) \<subseteq> set ws"
  by (induction ws) auto

lemma cut_suffix_tokens: "tokens_ok ws \<Longrightarrow> tokens_ok (cut_suffix ws)"
  using cut_suffix_subset[of ws] by (auto simp add: tokens_ok_def list_all_iff)

lemma sub_from_blank:
  assumes "tokens_ok ws" and "ws \<noteq> []"
  shows "sub_from True n bout_suffix_rx [] (CHR '' '' # py_join '' '' ws) =
           (if is_bout_suffix (py_join '' '' ws) then []
            else CHR '' '' # sub_from True n bout_suffix_rx [] (py_join '' '' ws))"
  by (subst sub_from.simps)
     (simp add: match_at_boundary[OF assms] sub_from_suffix_Nil del: match_at_suffix_space)

text \<open>The first substitution cuts the text before the first bout-type suffix.\<close>

lemma sub_from_join:
  "tokens_ok ws \<Longrightarrow>
     sub_from True n bout_suffix_rx [] (py_join '' '' ws) = py_join '' '' (cut_suffix ws)"
proof (induction ws rule: induct_list012)
  case 1
  then show ?case by (simp add: sub_from_suffix_Nil)
next
  case (2 w)
  then show ?case by (simp add: sub_from_suffix_word)
next
  case (3 w v vs)
  from 3(3) have w: "spacefree w" and t: "tokens_ok (v # vs)" by simp_all
  obtain r where r: "cut_suffix (v # vs) = v # r" using cut_suffix_Cons by blast
  have "sub_from True n bout_suffix_rx [] (py_join '' '' (w # v # vs)) =
          w @ sub_from True n bout_suffix_rx [] (CHR '' '' # py_join '' '' (v # vs))"
    unfolding join_Cons2 using w by (rule sub_from_suffix_spacefree)
  also have "\<dots> = w @ (if is_bout_suffix (py_join '' '' (v # vs)) then []
                          else CHR '' '' # py_join '' '' (cut_suffix (v # vs)))"
    by (simp only: sub_from_blank[OF t] 3(2)[OF t] list.distinct not_False_eq_True)
  also have "\<dots> = py_join '' '' (cut_suffix (w # v # vs))"
  proof (cases "is_bout_suffix (py_join '' '' (v # vs))")
    case True
    then have "cut_suffix (w # v # vs) = [w]" by simp
    with True show ?thesis by simp
  next
    case False
    then have "cut_suffix (w # v # vs) = w # v # r" using r by simp
    then have "py_join '' '' (cut_suffix (w # v # vs)) = w @ CHR '' '' # py_join '' '' (v # r)"
      by (simp only: join_Cons2)
    with False show ?thesis by (simp only: r if_False)
  qed
  finally show ?case .
qed


lemma first_space_unique:
  assumes "spacefree p" and "spacefree w" and "isspace y" and "isspace x"
    and "p @ y # ys = w @ x # t"
  shows "p = w"
proof -
  have "takeWhile (\<lambda>c. \<not> isspace c) (p @ y # ys) = p"
    using assms(1,3) by (simp add: spacefree_def list_all_iff takeWhile_append2)
  moreover have "takeWhile (\<lambda>c. \<not> isspace c) (w @ x # t) = w"
    using assms(2,4) by (simp add: spacefree_def list_all_iff takeWhile_append2)
  ultimately show ?thesis using assms(5) by simp
qed

lemma spacefree_UFC: "spacefree ''UFC''"
  by (simp add: isspace_def)

text \<open>The second substitution drops a first word "UFC" that another word follows.\<close>

lemma re_sub_prefix_join:
  assumes "tokens_ok r"
  shows "re_sub True ufc_prefix_rx [] (py_join '' '' r) = py_join '' '' (drop_ufc r)"
proof (cases r rule: remdups_adj.cases)
  case 1
  then show ?thesis using re_sub_prefix_word[of "[]"] by (simp add: drop_ufc_def)
next
  case (2 w)
  with assms show ?thesis using re_sub_prefix_word[of w] by (simp add: drop_ufc_def)
next
  case (3 w v vs)
  define t where "t = py_join '' '' (v # vs)"
  define s where "s = w @ CHR '' '' # t"
  from assms 3 have w: "spacefree w" and tv: "tokens_ok (v # vs)" by simp_all
  have s: "py_join '' '' r = s" unfolding 3 s_def t_def by (rule join_Cons2)
  from join_head[OF tv] have hd: "t \<noteq> [] \<and> \<not> isspace (hd t)" by (auto simp add: t_def)
  then have dw: "dropWhile isspace t = t" by (cases t) simp_all
  show ?thesis
  proof (cases "map ascii_lower w = ''ufc''")
    case True
    then have "map ascii_lower w = map ascii_lower ''UFC''" by (simp only: lower_literals)
    then have "str_rest True ''UFC'' s = Some (CHR '' '' # t)"
      unfolding s_def by (rule str_rest_ci_match)
    then have "match_at True (length s) ufc_prefix_rx s = Some (t, None)"
      by (simp add: match_at_prefix_start dw del: str_rest.simps)
    then have "re_sub True ufc_prefix_rx [] s = t" by (simp add: re_sub_prefix_cases)
    moreover have "drop_ufc r = v # vs" using True by (simp add: drop_ufc_def 3)
    ultimately show ?thesis by (simp only: s t_def)
  next
    case False
    have "match_at True (length s) ufc_prefix_rx s = None"
    proof (cases "str_rest True ''UFC'' s")
      case None
      then show ?thesis by (simp add: match_at_prefix_start del: str_rest.simps)
    next
      case (Some q)
      from str_rest_ci_Some[OF this] obtain p where p: "s = p @ q"
          and pl: "map ascii_lower p = map ascii_lower ''UFC''" by blast
      have sp: "spacefree p" using pl spacefree_UFC by (rule spacefree_ci)
      show ?thesis
      proof (cases q)
        case Nil
        with Some show ?thesis by (simp add: match_at_prefix_start del: str_rest.simps)
      next
        case (Cons y ys)
        have "\<not> isspace y"
        proof
          assume "isspace y"
          have e: "p @ y # ys = w @ CHR '' '' # t" using p by (simp only: Cons s_def)
          from sp w \<open>isspace y\<close> isspace_blank e have "p = w" by (rule first_space_unique)
          with pl False show False by (simp only: lower_literals)
        qed
        with Some Cons show ?thesis by (simp add: match_at_prefix_start del: str_rest.simps)
      qed
    qed
    then have "re_sub True ufc_prefix_rx [] s = s" by (simp add: re_sub_prefix_cases)
    moreover have "drop_ufc r = r" using False by (simp add: drop_ufc_def 3)
    ultimately show ?thesis by (simp only: s)
  qed
qed

lemma drop_ufc_tokens: "tokens_ok r \<Longrightarrow> tokens_ok (drop_ufc r)"
  by (auto simp add: drop_ufc_def split: list.splits)

lemma drop_ufc_nonempty: "r \<noteq> [] \<Longrightarrow> drop_ufc r \<noteq> []"
  by (auto simp add: drop_ufc_def split: list.splits)

lemma cut_suffix_nonempty: "ws \<noteq> [] \<Longrightarrow> cut_suffix ws \<noteq> []"
  by (cases ws) simp_all

text \<open>
  The normalizer, read off the words of its input: cut before the first bout-type
  suffix, drop a leading "UFC", join what is left with single blanks.
\<close>

lemma normalize_as_words:
  "normalize_weight_class (Some s) = normalize_words (py_split s)"
proof -
  define ws where "ws = py_split s"
  define r where "r = drop_ufc (cut_suffix ws)"
  have ws: "tokens_ok ws" unfolding ws_def by (rule py_split_tokens)
  then have c: "tokens_ok (cut_suffix ws)" by (rule cut_suffix_tokens)
  then have r: "tokens_ok r" unfolding r_def by (rule drop_ufc_tokens)
  have s1: "clean_text (Some s) = py_join '' '' ws" by (simp only: clean_text_join ws_def)
  have s2: "re_sub True bout_suffix_rx [] (py_join '' '' ws) = py_join '' '' (cut_suffix ws)"
    unfolding re_sub_def using ws by (rule sub_from_join)
  have s3: "re_sub True ufc_prefix_rx [] (py_join '' '' (cut_suffix ws)) = py_join '' '' r"
    unfolding r_def using c by (rule re_sub_prefix_join)
  have n: "normalize_weight_class (Some s) =
             (if py_join '' '' r \<noteq> [] then clean_text (Some (py_join '' '' r)) else ''Unknown'')"
    by (simp only: normalize_weight_class_def option.case Let_def s1 s2 s3)
  show ?thesis
  proof (cases "ws = []")
    case True
    then have "r = []" by (simp add: r_def drop_ufc_def)
    with n True show ?thesis by (simp add: normalize_words_def ws_def[symmetric])
  next
    case False
    then have "r \<noteq> []" unfolding r_def by (intro drop_ufc_nonempty cut_suffix_nonempty)
    with join_last[OF r] have "py_join '' '' r \<noteq> []" by simp
    with n clean_text_tokens[OF r] False show ?thesis
      by (simp add: normalize_words_def ws_def[symmetric] r_def)
  qed
qed


lemma normalize_suffix_examples:
  "normalize_weight_class (Some ''Bantamweight Interim Title Bout'') = ''Bantamweight''"
  "normalize_weight_class (Some ''Lightweight Catch Weight Bout'') = ''Lightweight''"
  "normalize_weight_class (Some ''Middleweight The Ultimate Fighter 3 Final'') = ''Middleweight''"
  "normalize_weight_class (Some ''Lightweight Tournament Final'') = ''Lightweight''"
  by code_simp+

text \<open>
  C6, as amended.  A missing text gives "Unknown".  Any other text is split into words
  at white space and cut before the first word, other than the first word of the text,
  from which the rest of the text is a bout-type suffix ("Bout", "Title Bout", "Interim
  ... Title Bout", "Catch Weight ...", "The Ultimate Fighter ... Final", "Tournament ...
  Final", in any mix of cases); then a first word "UFC", in any mix of cases, is dropped
  if another word follows it; the words left are joined by single blanks, and no word at
  all gives "Unknown".  The two examples of the claim hold, and so does an example of
  each other suffix; a blank text gives "Unknown", and a text that starts with "Women's"
  keeps that start.
\<close>

theorem normalize_weight_class_words:
  "normalize_weight_class None = ''Unknown'' \<and>
   (\<forall>s. normalize_weight_class (Some s) = normalize_words (py_split s)) \<and>
   normalize_weight_class (Some ''Women's Strawweight Bout'') = ''Women's Strawweight'' \<and>
   normalize_weight_class (Some ''UFC Lightweight Title Bout'') = ''Lightweight'' \<and>
   normalize_weight_class (Some ''Bantamweight Interim Title Bout'') = ''Bantamweight'' \<and>
   normalize_weight_class (Some ''Lightweight Catch Weight Bout'') = ''Lightweight'' \<and>
   normalize_weight_class (Some ''Middleweight The Ultimate Fighter 3 Final'') = ''Middleweight'' \<and>
   normalize_weight_class (Some ''Lightweight Tournament Final'') = ''Lightweight'' \<and>
   (\<forall>s. list_all isspace s \<longrightarrow> normalize_weight_class (Some s) = ''Unknown'') \<and>
   (\<forall>s. prefix ''Women's'' (clean_text (Some s)) \<longrightarrow>
      prefix ''Women's'' (normalize_weight_class (Some s)))"
proof (intro conjI allI impI)
  show "normalize_weight_class None = ''Unknown''" by (simp add: normalize_weight_class_def)
  show "normalize_weight_class (Some s) = normalize_words (py_split s)" for s
    by (rule normalize_as_words)
  show "normalize_weight_class (Some ''Women's Strawweight Bout'') = ''Women's Strawweight''"
    by (rule normalize_examples)
  show "normalize_weight_class (Some ''UFC Lightweight Title Bout'') = ''Lightweight''"
    by (rule normalize_examples)
  show "normalize_weight_class (Some ''Bantamweight Interim Title Bout'') = ''Bantamweight''"
    by (rule normalize_suffix_examples)
  show "normalize_weight_class (Some ''Lightweight Catch Weight Bout'') = ''Lightweight''"
    by (rule normalize_suffix_examples)
  show "normalize_weight_class (Some ''Middleweight The Ultimate Fighter 3 Final'') = ''Middleweight''"
    by (rule normalize_suffix_examples)
  show "normalize_weight_class (Some ''Lightweight Tournament Final'') = ''Lightweight''"
    by (rule normalize_suffix_examples)
  show "normalize_weight_class (Some s) = ''Unknown''" if "list_all isspace s" for s
    using that by (rule normalize_blank)
  show "prefix ''Women's'' (normalize_weight_class (Some s))"
    if "prefix ''Women's'' (clean_text (Some s))" for s
    using that by (rule normalize_keeps_womens)
qed

theorem normalize_weight_class_words_witness:
  "normalize_weight_class (Some [CHR '' '', CHR 0x09]) = ''Unknown'' \<and>
   prefix ''Women's'' (normalize_weight_class (Some ''  Women's  Flyweight Bout'')) \<and>
   normalize_weight_class (Some ''Lightweight Catch Weight Bout'') =
     normalize_words [''Lightweight'', ''Catch'', ''Weight'', ''Bout'']"
proof -
  note rest = normalize_weight_class_words[THEN conjunct2]
  note words = rest[THEN conjunct1, THEN spec]
  note more = rest[THEN conjunct2, THEN conjunct2, THEN conjunct2, THEN conjunct2, THEN conjunct2,
      THEN conjunct2, THEN conjunct2]
  note blank = more[THEN conjunct1, THEN spec, THEN mp]
  note womens = more[THEN conjunct2, THEN spec, THEN mp]
  have w1: "list_all isspace [CHR '' '', CHR 0x09]" by code_simp
  have w2: "prefix ''Women's'' (clean_text (Some ''  Women's  Flyweight Bout''))" by code_simp
  have w3: "py_split ''Lightweight Catch Weight Bout'' = [''Lightweight'', ''Catch'', ''Weight'', ''Bout'']"
    by code_simp
  from blank[OF w1] womens[OF w2] words[of "''Lightweight Catch Weight Bout''", unfolded w3]
  show ?thesis by (intro conjI)
qed

text \<open>
  The claim as stated fails: the suffix is cut first, and here it starts right after
  "UFC", so the prefix stays and the weight class is lost.
\<close>

theorem normalize_ufc_prefix_counterexample:
  "normalize_weight_class (Some ''UFC Interim Heavyweight Title Bout'') = ''UFC''"
  by code_simp

section \<open>When a second pass changes nothing\<close>



















lemma second_pass_examples:
  "normalize_weight_class (Some ''Lightweight Bout Bout'') = ''Lightweight Bout''"
  "normalize_weight_class (Some ''Lightweight Bout'') = ''Lightweight''"
  "normalize_weight_class (Some ''Lightweight Tournament Final Bout'') = ''Lightweight Tournament Final''"
  "normalize_weight_class (Some ''Lightweight Tournament Final'') = ''Lightweight''"
  by code_simp+




end
